theory Spec2Isabelle
  imports Complex_Main "HOL-Library.Word" "HOL-Library.Sublist" "HOL-Library.Char_ord"
    "HOL-Library.List_Lexorder"
begin

unbundle bit_operations_syntax

section \<open>Python strings\<close>

text \<open>
  A Python \<open>str\<close> is modelled as a \<^typ>\<open>string\<close> whose characters are the code points
  below 256.  The character classes are those of \<open>str.isspace\<close>, of the \<open>re\<close> module's
  \<open>\s\<close>, \<open>\d\<close>, \<open>\w\<close> on \<open>str\<close> patterns, and of \<open>str.lower\<close>, restricted to these
  code points.
\<close>

definition code :: "char \<Rightarrow> nat" where
  "code c = of_char c"

definition is_space :: "char \<Rightarrow> bool" where
  "is_space c = (let n = code c in (9 \<le> n \<and> n \<le> 13) \<or> (28 \<le> n \<and> n \<le> 32) \<or> n = 133 \<or> n = 160)"

definition is_digit :: "char \<Rightarrow> bool" where
  "is_digit c = (let n = code c in 48 \<le> n \<and> n \<le> 57)"

definition is_upper :: "char \<Rightarrow> bool" where
  "is_upper c = (let n = code c in 65 \<le> n \<and> n \<le> 90)"

definition is_word :: "char \<Rightarrow> bool" where
  "is_word c = (let n = code c in
     (48 \<le> n \<and> n \<le> 57) \<or> (65 \<le> n \<and> n \<le> 90) \<or> n = 95 \<or> (97 \<le> n \<and> n \<le> 122) \<or>
     n = 170 \<or> n = 178 \<or> n = 179 \<or> n = 181 \<or> n = 185 \<or> n = 186 \<or> (188 \<le> n \<and> n \<le> 190) \<or>
     (192 \<le> n \<and> n \<le> 214) \<or> (216 \<le> n \<and> n \<le> 246) \<or> (248 \<le> n \<and> n \<le> 255))"

definition lower_char :: "char \<Rightarrow> char" where
  "lower_char c = (let n = code c in
     if (65 \<le> n \<and> n \<le> 90) \<or> (192 \<le> n \<and> n \<le> 214) \<or> (216 \<le> n \<and> n \<le> 222)
     then char_of (n + 32) else c)"

definition lower :: "string \<Rightarrow> string" where
  "lower s = map lower_char s"

definition strip :: "string \<Rightarrow> string" where
  "strip s = rev (dropWhile is_space (rev (dropWhile is_space s)))"

text \<open>\<open>str.split()\<close> without argument: the maximal runs of non-whitespace characters.\<close>

fun split_acc :: "string \<Rightarrow> string \<Rightarrow> string list" where
  "split_acc cur [] = (if cur = [] then [] else [rev cur])"
| "split_acc cur (x # xs) =
     (if is_space x then (if cur = [] then split_acc [] xs else rev cur # split_acc [] xs)
      else split_acc (x # cur) xs)"

definition split :: "string \<Rightarrow> string list" where
  "split s = split_acc [] s"

text \<open>\<open>s.replace(c, '')\<close> for a one-character \<open>c\<close>.\<close>

definition remove_char :: "char \<Rightarrow> string \<Rightarrow> string" where
  "remove_char c s = filter (\<lambda>x. x \<noteq> c) s"

text \<open>\<open>sep.join(xs)\<close>.\<close>

fun join :: "string \<Rightarrow> string list \<Rightarrow> string" where
  "join sep [] = []"
| "join sep [x] = x"
| "join sep (x # y # ys) = x @ sep @ join sep (y # ys)"

section \<open>Regular expressions\<close>

text \<open>
  The patterns of the program are sequences of single character classes, greedy
  repetitions of a character class, \<open>\b\<close> and \<open>^\<close>.  \<open>match_at\<close> is the backtracking
  matcher of \<open>re\<close> at one position: \<open>prev\<close> is the character before the position
  (\<open>None\<close> at the start of the text), the result is the length of the match.  A greedy
  repetition first takes the longest run and gives characters back one at a time.
\<close>

datatype cclass = CDigit | CSpace | CUpper | CUpperBlank | CChar char

fun in_class :: "cclass \<Rightarrow> char \<Rightarrow> bool" where
  "in_class CDigit c = is_digit c"
| "in_class CSpace c = is_space c"
| "in_class CUpper c = is_upper c"
| "in_class CUpperBlank c = (is_upper c \<or> c = CHR '' '')"
| "in_class (CChar d) c = (c = d)"

datatype atom = One cclass | Many cclass nat | WordBoundary | StartOfText

definition word_opt :: "char option \<Rightarrow> bool" where
  "word_opt p = (case p of None \<Rightarrow> False | Some c \<Rightarrow> is_word c)"

definition next_char :: "string \<Rightarrow> char option" where
  "next_char s = (case s of [] \<Rightarrow> None | x # _ \<Rightarrow> Some x)"

definition is_boundary :: "char option \<Rightarrow> string \<Rightarrow> bool" where
  "is_boundary prev s = (word_opt prev \<noteq> word_opt (next_char s))"

definition prev_at :: "char option \<Rightarrow> string \<Rightarrow> nat \<Rightarrow> char option" where
  "prev_at prev s k = (if k = 0 then prev else Some (s ! (k - 1)))"

fun first_some :: "'a option list \<Rightarrow> 'a option" where
  "first_some [] = None"
| "first_some (None # xs) = first_some xs"
| "first_some (Some x # xs) = Some x"

fun match_at :: "atom list \<Rightarrow> char option \<Rightarrow> string \<Rightarrow> nat option" where
  "match_at [] prev s = Some 0"
| "match_at (One c # as) prev s =
     (case s of [] \<Rightarrow> None
      | x # xs \<Rightarrow> if in_class c x then map_option Suc (match_at as (Some x) xs) else None)"
| "match_at (WordBoundary # as) prev s = (if is_boundary prev s then match_at as prev s else None)"
| "match_at (StartOfText # as) prev s = (if prev = None then match_at as prev s else None)"
| "match_at (Many c lo # as) prev s =
     first_some (map (\<lambda>k. map_option (\<lambda>n. k + n) (match_at as (prev_at prev s k) (drop k s)))
                     (rev [lo ..< Suc (length (takeWhile (in_class c) s))]))"

lemma first_some_SomeD: "first_some xs = Some n \<Longrightarrow> Some n \<in> set xs"
  by (induction xs rule: first_some.induct) auto

lemma match_at_length: "match_at p prev s = Some n \<Longrightarrow> n \<le> length s"
proof (induction p prev s arbitrary: n rule: match_at.induct)
  case (5 c lo as prev s)
  from "5.prems" have "Some n \<in> set (map (\<lambda>k. map_option (\<lambda>n. k + n)
      (match_at as (prev_at prev s k) (drop k s))) (rev [lo ..< Suc (length (takeWhile (in_class c) s))]))"
    by (intro first_some_SomeD) (simp only: match_at.simps)
  then obtain k where k: "k \<in> set (rev [lo ..< Suc (length (takeWhile (in_class c) s))])"
    and e: "Some n = map_option (\<lambda>n. k + n) (match_at as (prev_at prev s k) (drop k s))"
    by (auto simp only: set_map image_iff)
  from e obtain m where m: "match_at as (prev_at prev s k) (drop k s) = Some m" and n: "n = k + m"
    by (cases "match_at as (prev_at prev s k) (drop k s)") auto
  from "5.IH"[OF k m] have "m \<le> length s - k" by simp
  moreover from k have "k \<le> length (takeWhile (in_class c) s)" by auto
  then have "k \<le> length s" using length_takeWhile_le[of "in_class c" s] by linarith
  ultimately show ?case using n by simp
qed (auto split: list.splits if_splits)

text \<open>
  \<open>re.sub(pattern, repl, text)\<close>: the text is scanned from left to right, each match is
  replaced and the scan goes on behind it; an empty match is replaced and the scan moves
  one character on.
\<close>

function re_sub_from :: "atom list \<Rightarrow> string \<Rightarrow> char option \<Rightarrow> string \<Rightarrow> string" where
  "re_sub_from p r prev s =
     (case match_at p prev s of
        None \<Rightarrow> (case s of [] \<Rightarrow> [] | x # xs \<Rightarrow> x # re_sub_from p r (Some x) xs)
      | Some n \<Rightarrow>
          if n = 0 then r @ (case s of [] \<Rightarrow> [] | x # xs \<Rightarrow> x # re_sub_from p r (Some x) xs)
          else r @ re_sub_from p r (Some (s ! (n - 1))) (drop n s))"
  by pat_completeness auto
termination
proof (relation "measure (\<lambda>(p, r, prev, s). length s)", goal_cases)
  case (4 p r prev s n)
  then have "n \<le> length s" by (simp add: match_at_length)
  with 4 show ?case by auto
qed auto

declare re_sub_from.simps [simp del]

definition re_sub :: "atom list \<Rightarrow> string \<Rightarrow> string \<Rightarrow> string" where
  "re_sub p r s = re_sub_from p r None s"

text \<open>
  \<open>re.split(pattern, text)\<close> for a pattern without groups: the pieces of the text between
  the matches.
\<close>

fun push_char :: "char \<Rightarrow> string list \<Rightarrow> string list" where
  "push_char x [] = [[x]]"
| "push_char x (h # t) = (x # h) # t"

function re_split_from :: "atom list \<Rightarrow> char option \<Rightarrow> string \<Rightarrow> string list" where
  "re_split_from p prev s =
     (case match_at p prev s of
        None \<Rightarrow> (case s of [] \<Rightarrow> [[]] | x # xs \<Rightarrow> push_char x (re_split_from p (Some x) xs))
      | Some n \<Rightarrow>
          if n = 0 then (case s of [] \<Rightarrow> [[], []]
                         | x # xs \<Rightarrow> [] # push_char x (re_split_from p (Some x) xs))
          else [] # re_split_from p (Some (s ! (n - 1))) (drop n s))"
  by pat_completeness auto
termination
proof (relation "measure (\<lambda>(p, prev, s). length s)", goal_cases)
  case (4 p prev s n)
  then have "n \<le> length s" by (simp add: match_at_length)
  with 4 show ?case by auto
qed auto

declare re_split_from.simps [simp del]

definition re_split :: "atom list \<Rightarrow> string \<Rightarrow> string list" where
  "re_split p s = re_split_from p None s"

section \<open>Text normalizer\<close>

definition pat_site_code :: "atom list" where
  "pat_site_code = [WordBoundary, Many CUpper 1, Many CDigit 1, Many CUpper 0, WordBoundary]"

definition pat_decimal :: "atom list" where
  "pat_decimal = [WordBoundary, Many CDigit 1, One (CChar CHR ''.''), Many CDigit 1, WordBoundary]"

definition pat_integer :: "atom list" where
  "pat_integer = [WordBoundary, Many CDigit 1, WordBoundary]"

definition pat_dbm :: "atom list" where
  "pat_dbm = [WordBoundary, Many CDigit 1, One (CChar CHR ''d''), One (CChar CHR ''B''),
              One (CChar CHR ''m''), WordBoundary]"

definition pat_percent :: "atom list" where
  "pat_percent = [WordBoundary, Many CDigit 1, One (CChar CHR ''%''), WordBoundary]"

definition pat_spaces :: "atom list" where
  "pat_spaces = [Many CSpace 1]"

definition pat_comma_comma :: "atom list" where
  "pat_comma_comma = [One (CChar CHR '',''), Many CSpace 0, One (CChar CHR '','')]"

definition pat_space_comma :: "atom list" where
  "pat_space_comma = [One CSpace, One (CChar CHR '','')]"

definition remove_specific_locations :: "string \<Rightarrow> string" where
  "remove_specific_locations text =
     (if text = [] \<or> strip text = [] then text
      else
        let text = re_sub pat_site_code ''the area'' text;
            text = re_sub pat_decimal [] text;
            text = re_sub pat_integer [] text;
            text = re_sub pat_dbm ''current signal level'' text;
            text = re_sub pat_percent [] text;
            text = re_sub pat_spaces '' '' text;
            text = re_sub pat_comma_comma '','' text;
            text = re_sub pat_space_comma '','' text
        in strip text)"

section \<open>Solution formatting\<close>

definition newline :: char where
  "newline = char_of (10 :: nat)"

definition pat_numbered :: "atom list" where
  "pat_numbered = [One (CChar newline), Many CSpace 0, Many CDigit 1, One (CChar CHR ''.'')]"

definition pat_blank_line :: "atom list" where
  "pat_blank_line = [One (CChar newline), Many CSpace 0, One (CChar newline)]"

definition pat_heading :: "atom list" where
  "pat_heading = [StartOfText, Many CSpace 0, Many CUpperBlank 1, One (CChar CHR '':''), Many CSpace 0]"

definition digit_char :: "nat \<Rightarrow> char" where
  "digit_char n = char_of (48 + n)"

text \<open>\<open>str(n)\<close> for a non-negative integer.\<close>

fun dec_str :: "nat \<Rightarrow> string" where
  "dec_str n = (if n < 10 then [digit_char n] else dec_str (n div 10) @ [digit_char (n mod 10)])"

declare dec_str.simps [simp del]

definition stripped_paragraphs :: "string list \<Rightarrow> string list" where
  "stripped_paragraphs raw = map strip (filter (\<lambda>para. strip para \<noteq> []) raw)"

definition format_solution_paragraphs :: "string \<Rightarrow> string \<Rightarrow> string" where
  "format_solution_paragraphs solution_text solution_type =
     (if solution_text = [] \<or> strip solution_text = [] then ''No solution generated.''
      else
        let cleaned_text = remove_specific_locations (strip solution_text);
            raw_paragraphs = stripped_paragraphs (re_split pat_numbered cleaned_text);
            paragraphs =
              (if 2 \<le> length raw_paragraphs
               then map (\<lambda>(i, paragraph).
                           dec_str i @ ''. '' @
                           strip (re_sub pat_heading [] (remove_specific_locations paragraph)))
                        (enumerate 1 (take 4 raw_paragraphs))
               else map (\<lambda>(i, paragraph). dec_str i @ ''. '' @ remove_specific_locations paragraph)
                        (enumerate 1 (take 4 (stripped_paragraphs (re_split pat_blank_line cleaned_text)))));
            paragraphs =
              (if paragraphs = []
               then [''1. Please contact technical support for detailed analysis and assistance with this issue.'']
               else paragraphs)
        in join [newline, newline] paragraphs @ [newline, newline] @
           ''[Solution type: '' @ solution_type @ '']'')"

section \<open>The digest\<close>

text \<open>
  \<open>hashlib.md5(s.encode()).hexdigest()\<close>: the UTF-8 encoding of the text, the MD5
  compression function over 512-bit blocks (RFC 1321), and the 32 lower-case hexadecimal
  digits of the result.
\<close>

definition utf8 :: "string \<Rightarrow> nat list" where
  "utf8 s = concat (map (\<lambda>c. let n = code c in
                                if n < 128 then [n] else [192 + n div 64, 128 + n mod 64]) s)"

definition md5_K :: "32 word list" where
  "md5_K =
    [0xd76aa478, 0xe8c7b756, 0x242070db, 0xc1bdceee, 0xf57c0faf, 0x4787c62a, 0xa8304613, 0xfd469501,
     0x698098d8, 0x8b44f7af, 0xffff5bb1, 0x895cd7be, 0x6b901122, 0xfd987193, 0xa679438e, 0x49b40821,
     0xf61e2562, 0xc040b340, 0x265e5a51, 0xe9b6c7aa, 0xd62f105d, 0x02441453, 0xd8a1e681, 0xe7d3fbc8,
     0x21e1cde6, 0xc33707d6, 0xf4d50d87, 0x455a14ed, 0xa9e3e905, 0xfcefa3f8, 0x676f02d9, 0x8d2a4c8a,
     0xfffa3942, 0x8771f681, 0x6d9d6122, 0xfde5380c, 0xa4beea44, 0x4bdecfa9, 0xf6bb4b60, 0xbebfbc70,
     0x289b7ec6, 0xeaa127fa, 0xd4ef3085, 0x04881d05, 0xd9d4d039, 0xe6db99e5, 0x1fa27cf8, 0xc4ac5665,
     0xf4292244, 0x432aff97, 0xab9423a7, 0xfc93a039, 0x655b59c3, 0x8f0ccc92, 0xffeff47d, 0x85845dd1,
     0x6fa87e4f, 0xfe2ce6e0, 0xa3014314, 0x4e0811a1, 0xf7537e82, 0xbd3af235, 0x2ad7d2bb, 0xeb86d391]"

definition md5_S :: "nat list" where
  "md5_S =
    [7, 12, 17, 22, 7, 12, 17, 22, 7, 12, 17, 22, 7, 12, 17, 22,
     5, 9, 14, 20, 5, 9, 14, 20, 5, 9, 14, 20, 5, 9, 14, 20,
     4, 11, 16, 23, 4, 11, 16, 23, 4, 11, 16, 23, 4, 11, 16, 23,
     6, 10, 15, 21, 6, 10, 15, 21, 6, 10, 15, 21, 6, 10, 15, 21]"

definition md5_F :: "nat \<Rightarrow> 32 word \<Rightarrow> 32 word \<Rightarrow> 32 word \<Rightarrow> 32 word" where
  "md5_F i b c d =
     (if i < 16 then (b AND c) OR (NOT b AND d)
      else if i < 32 then (d AND b) OR (NOT d AND c)
      else if i < 48 then b XOR c XOR d
      else c XOR (b OR NOT d))"

definition md5_g :: "nat \<Rightarrow> nat" where
  "md5_g i =
     (if i < 16 then i
      else if i < 32 then (5 * i + 1) mod 16
      else if i < 48 then (3 * i + 5) mod 16
      else (7 * i) mod 16)"

type_synonym md5_state = "32 word \<times> 32 word \<times> 32 word \<times> 32 word"

fun md5_step :: "32 word list \<Rightarrow> md5_state \<Rightarrow> nat \<Rightarrow> md5_state" where
  "md5_step M (a, b, c, d) i =
     (let f = md5_F i b c d + a + md5_K ! i + M ! md5_g i
      in (d, b + word_rotl (md5_S ! i) f, b, c))"

fun le_word :: "nat list \<Rightarrow> 32 word" where
  "le_word [] = 0"
| "le_word (b # bs) = of_nat b + 256 * le_word bs"

primrec chunks :: "nat \<Rightarrow> nat \<Rightarrow> 'a list \<Rightarrow> 'a list list" where
  "chunks 0 k xs = []"
| "chunks (Suc n) k xs = take k xs # chunks n k (drop k xs)"

fun md5_block :: "md5_state \<Rightarrow> nat list \<Rightarrow> md5_state" where
  "md5_block (a0, b0, c0, d0) blk =
     (case foldl (md5_step (map le_word (chunks 16 4 blk))) (a0, b0, c0, d0) [0 ..< 64] of
        (a, b, c, d) \<Rightarrow> (a0 + a, b0 + b, c0 + c, d0 + d))"

primrec le_bytes :: "nat \<Rightarrow> nat \<Rightarrow> nat list" where
  "le_bytes 0 n = []"
| "le_bytes (Suc k) n = (n mod 256) # le_bytes k (n div 256)"

definition md5_pad :: "nat list \<Rightarrow> nat list" where
  "md5_pad msg = msg @ [128] @ replicate ((119 - length msg mod 64) mod 64) 0
                 @ le_bytes 8 (8 * length msg)"

definition hex_digit :: "nat \<Rightarrow> char" where
  "hex_digit n = (if n < 10 then char_of (48 + n) else char_of (87 + n))"

definition hex_byte :: "nat \<Rightarrow> string" where
  "hex_byte n = [hex_digit (n div 16), hex_digit (n mod 16)]"

definition md5_hexdigest :: "nat list \<Rightarrow> string" where
  "md5_hexdigest msg =
     (let p = md5_pad msg
      in case foldl md5_block (0x67452301, 0xefcdab89, 0x98badcfe, 0x10325476)
                (chunks (length p div 64) 64 p) of
           (a, b, c, d) \<Rightarrow> concat (map hex_byte (concat (map (\<lambda>w. le_bytes 4 (unat w)) [a, b, c, d]))))"

section \<open>Python floats and condition values\<close>

text \<open>
  A finite float is modelled by the real number it denotes, so arithmetic and comparisons
  are exact; \<open>round(x, n)\<close> rounds that number to \<open>n\<close> decimals (half to even) and
  \<open>str\<close> prints positional decimal notation, which is what Python prints for the numbers
  with at most six decimals that the program formats (magnitudes below \<open>10^16\<close>).
\<close>

datatype pyfloat = Fin real | PosInf | NegInf | NaNf

definition round_half_even :: "real \<Rightarrow> int" where
  "round_half_even x =
     (let f = \<lfloor>x\<rfloor>; d = x - of_int f
      in if d < 1 / 2 then f else if 1 / 2 < d then f + 1 else if even f then f else f + 1)"

fun py_round :: "nat \<Rightarrow> pyfloat \<Rightarrow> pyfloat" where
  "py_round n (Fin x) = Fin (of_int (round_half_even (x * 10 ^ n)) / 10 ^ n)"
| "py_round n f = f"

primrec frac_digits :: "nat \<Rightarrow> nat \<Rightarrow> string" where
  "frac_digits 0 n = []"
| "frac_digits (Suc w) n = frac_digits w (n div 10) @ [digit_char (n mod 10)]"

definition strip_zeros :: "string \<Rightarrow> string" where
  "strip_zeros ds = rev (dropWhile (\<lambda>c. c = CHR ''0'') (rev ds))"

definition fixed_str :: "nat \<Rightarrow> real \<Rightarrow> string" where
  "fixed_str d x =
     (let n = nat (round_half_even (\<bar>x\<bar> * 10 ^ d));
          fp = strip_zeros (frac_digits d (n mod 10 ^ d))
      in (if x < 0 then ''-'' else []) @ dec_str (n div 10 ^ d) @ ''.'' @ (if fp = [] then ''0'' else fp))"

fun float_str :: "pyfloat \<Rightarrow> string" where
  "float_str (Fin x) = fixed_str 17 x"
| "float_str PosInf = ''inf''"
| "float_str NegInf = ''-inf''"
| "float_str NaNf = ''nan''"

text \<open>\<open>abs(f) > r\<close> and \<open>f > r\<close>; every comparison with NaN is false.\<close>

fun float_abs_gt :: "pyfloat \<Rightarrow> real \<Rightarrow> bool" where
  "float_abs_gt (Fin x) r = (r < \<bar>x\<bar>)"
| "float_abs_gt PosInf r = True"
| "float_abs_gt NegInf r = True"
| "float_abs_gt NaNf r = False"

fun float_gt :: "pyfloat \<Rightarrow> real \<Rightarrow> bool" where
  "float_gt (Fin x) r = (r < x)"
| "float_gt PosInf r = True"
| "float_gt NegInf r = False"
| "float_gt NaNf r = False"

text \<open>
  \<open>float(s)\<close> for a string: surrounding whitespace, a sign, then \<open>inf\<close>, \<open>infinity\<close>,
  \<open>nan\<close> (in any case) or digits with an optional point and exponent, where single
  underscores may separate digits.  \<open>None\<close> is the \<open>ValueError\<close>.
\<close>

fun take_digitpart :: "string \<Rightarrow> string \<times> string" where
  "take_digitpart [] = ([], [])"
| "take_digitpart [x] = (if is_digit x then ([x], []) else ([], [x]))"
| "take_digitpart (x # y # ys) =
     (if is_digit x then
        (if y = CHR ''_'' then
           (case ys of
              [] \<Rightarrow> ([x], y # ys)
            | z # zs \<Rightarrow> if is_digit z then (case take_digitpart ys of (d, r) \<Rightarrow> (x # d, r))
                        else ([x], y # ys))
         else (case take_digitpart (y # ys) of (d, r) \<Rightarrow> (x # d, r)))
      else ([], x # y # ys))"

definition digits_value :: "string \<Rightarrow> nat" where
  "digits_value ds = foldl (\<lambda>acc c. 10 * acc + (code c - 48)) 0 ds"

definition parse_exponent :: "string \<Rightarrow> real option" where
  "parse_exponent s =
     (case s of
        [] \<Rightarrow> Some 1
      | e # r \<Rightarrow>
          if e = CHR ''e'' \<or> e = CHR ''E'' then
            (let neg = (case r of [] \<Rightarrow> False | c # _ \<Rightarrow> c = CHR ''-'');
                 r' = (case r of [] \<Rightarrow> [] | c # t \<Rightarrow> if c = CHR ''+'' \<or> c = CHR ''-'' then t else r)
             in case take_digitpart r' of
                  (ds, rest) \<Rightarrow>
                    if ds = [] \<or> rest \<noteq> [] then None
                    else Some (if neg then 1 / 10 ^ digits_value ds else 10 ^ digits_value ds))
          else None)"

definition parse_number :: "string \<Rightarrow> real option" where
  "parse_number s =
     (case take_digitpart s of
        (ip, r1) \<Rightarrow>
          (case (case r1 of
                   [] \<Rightarrow> ([], r1)
                 | c # t \<Rightarrow> if c = CHR ''.'' then take_digitpart t else ([], r1)) of
             (fp, r2) \<Rightarrow>
               if ip = [] \<and> fp = [] then None
               else (case parse_exponent r2 of
                       None \<Rightarrow> None
                     | Some e \<Rightarrow>
                         Some ((real (digits_value ip) + real (digits_value fp) / 10 ^ length fp) * e))))"

definition parse_float :: "string \<Rightarrow> pyfloat option" where
  "parse_float s0 =
     (let s = strip s0;
          neg = (case s of [] \<Rightarrow> False | c # _ \<Rightarrow> c = CHR ''-'');
          s1 = (case s of [] \<Rightarrow> [] | c # t \<Rightarrow> if c = CHR ''+'' \<or> c = CHR ''-'' then t else s)
      in if lower s1 = ''inf'' \<or> lower s1 = ''infinity'' then Some (if neg then NegInf else PosInf)
         else if lower s1 = ''nan'' then Some NaNf
         else (case parse_number s1 of
                 None \<Rightarrow> None
               | Some x \<Rightarrow> Some (Fin (if neg then - x else x))))"

text \<open>
  The values a condition dictionary holds: \<open>None\<close>, a \<open>str\<close> or a \<open>float\<close>.  A
  dictionary is the list of its items in insertion order, with distinct keys;
  \<open>d.get(key)\<close> is \<open>dict_get\<close>.  An absent dictionary and the empty one are both \<open>[]\<close>.
\<close>

datatype pyval = PNone | PStr string | PFloat pyfloat

type_synonym pydict = "(string \<times> pyval) list"

definition dict_get :: "pydict \<Rightarrow> string \<Rightarrow> pyval" where
  "dict_get d k = (case map_of d k of None \<Rightarrow> PNone | Some v \<Rightarrow> v)"

fun py_str :: "pyval \<Rightarrow> string" where
  "py_str PNone = ''None''"
| "py_str (PStr s) = s"
| "py_str (PFloat f) = float_str f"

fun is_number :: "pyval \<Rightarrow> bool" where
  "is_number (PFloat f) = True"
| "is_number v = False"

fun py_float :: "pyval \<Rightarrow> pyfloat" where
  "py_float (PFloat f) = f"
| "py_float v = NaNf"

section \<open>Signature builder\<close>

definition all_conditions :: "string list" where
  "all_conditions =
     [''device_type_settings_vpn_apn'', ''signal_strength'', ''quality_of_signal'',
      ''site_kpi_alarm'', ''past_data_analysis'', ''indoor_outdoor_coverage_issue'',
      ''location'', ''longitude'', ''latitude'']"

definition sentinels :: "string list" where
  "sentinels = ['''', ''n/a'', ''none'', ''null'', ''undefined'']"

text \<open>What one pass of the loop over \<open>all_conditions\<close> appends to \<open>condition_values\<close>.\<close>

definition condition_value :: "string \<Rightarrow> pyval \<Rightarrow> string list" where
  "condition_value key v =
     (if v \<noteq> PNone \<and> lower (strip (py_str v)) \<notin> set sentinels then
        (if (key = ''longitude'' \<or> key = ''latitude'') \<and> is_number v then
           (if float_abs_gt (py_float v) 0.001
            then [key @ '':'' @ float_str (py_round 6 (py_float v))] else [])
         else [key @ '':'' @ strip (lower (py_str v))])
      else [])"

definition condition_values :: "pydict \<Rightarrow> string list" where
  "condition_values conditions =
     concat (map (\<lambda>key. condition_value key (dict_get conditions key)) all_conditions)"

definition condition_str :: "pydict \<Rightarrow> string" where
  "condition_str conditions =
     (if conditions = [] then [] else join ''|'' (sort (condition_values conditions)))"

definition signature_input :: "string \<Rightarrow> pydict \<Rightarrow> string" where
  "signature_input complaint_text conditions =
     remove_specific_locations (strip (lower complaint_text)) @ ''|'' @ condition_str conditions"

definition create_complaint_signature :: "string \<Rightarrow> pydict \<Rightarrow> string" where
  "create_complaint_signature complaint_text conditions =
     md5_hexdigest (utf8 (signature_input complaint_text conditions))"

section \<open>Corpus\<close>

text \<open>
  A table cell is missing (pandas NaN), a text or a number.  A row is the list of its
  columns with their cells; \<open>row.get(col)\<close> is \<open>row_get\<close>, which is \<open>None\<close> for a column
  the table does not have.  A table is the list of its rows; the empty list is the empty
  (or absent) DataFrame.
\<close>

datatype cell = NaN | Txt string | Num real

type_synonym row = "(string \<times> cell) list"

definition row_get :: "row \<Rightarrow> string \<Rightarrow> cell option" where
  "row_get r col = map_of r col"

fun cell_str :: "cell \<Rightarrow> string" where
  "cell_str NaN = ''nan''"
| "cell_str (Txt s) = s"
| "cell_str (Num x) = float_str (Fin x)"

text \<open>\<open>float(v)\<close> for a cell; \<open>None\<close> is the \<open>ValueError\<close>.\<close>

fun cell_float :: "cell \<Rightarrow> pyfloat option" where
  "cell_float NaN = Some NaNf"
| "cell_float (Txt s) = parse_float s"
| "cell_float (Num x) = Some (Fin x)"

section \<open>Exact-match resolver\<close>

definition text_columns :: "(string \<times> string) list" where
  "text_columns =
     [(''Device type/settings/VPN/APN'', ''device_type_settings_vpn_apn''),
      (''Signal Strength'', ''signal_strength''),
      (''Qulity of Signal'', ''quality_of_signal''),
      (''Site KPI/Alarm'', ''site_kpi_alarm''),
      (''Past Data analysis'', ''past_data_analysis''),
      (''Indoor/Outdoor coverage issue'', ''indoor_outdoor_coverage_issue'')]"

definition coord_columns :: "(string \<times> string) list" where
  "coord_columns = [(''Lon'', ''longitude''), (''Lat'', ''latitude'')]"

definition hist_text_condition :: "row \<Rightarrow> string \<times> string \<Rightarrow> pydict" where
  "hist_text_condition r ck =
     (case row_get r (fst ck) of
        None \<Rightarrow> []
      | Some v \<Rightarrow> if v \<noteq> NaN \<and> strip (cell_str v) \<noteq> [] then [(snd ck, PStr (cell_str v))] else [])"

definition hist_coord_condition :: "row \<Rightarrow> string \<times> string \<Rightarrow> pydict" where
  "hist_coord_condition r ck =
     (case row_get r (fst ck) of
        None \<Rightarrow> []
      | Some v \<Rightarrow>
          if v \<noteq> NaN then
            (case cell_float v of
               None \<Rightarrow> []
             | Some fval \<Rightarrow> if float_abs_gt fval 0.001 then [(snd ck, PFloat fval)] else [])
          else [])"

definition hist_conditions :: "row \<Rightarrow> pydict" where
  "hist_conditions r =
     concat (map (hist_text_condition r) text_columns) @
     concat (map (hist_coord_condition r) coord_columns)"

definition cell_or :: "string \<Rightarrow> cell option \<Rightarrow> string" where
  "cell_or dflt v = (case v of None \<Rightarrow> dflt | Some c \<Rightarrow> cell_str c)"

definition hist_issue_desc :: "row \<Rightarrow> string" where
  "hist_issue_desc r = remove_specific_locations (cell_or [] (row_get r ''Issue Description''))"

definition hist_signature_input :: "row \<Rightarrow> string" where
  "hist_signature_input r = signature_input (hist_issue_desc r) (hist_conditions r)"

definition hist_signature :: "row \<Rightarrow> string" where
  "hist_signature r = create_complaint_signature (hist_issue_desc r) (hist_conditions r)"

definition exact_solution :: "row \<Rightarrow> string" where
  "exact_solution r =
     format_solution_paragraphs (cell_or ''No solution found'' (row_get r ''Solution'')) ''exact_match''"

fun scan_exact :: "string \<Rightarrow> row list \<Rightarrow> string option" where
  "scan_exact current_signature [] = None"
| "scan_exact current_signature (r # rows) =
     (if current_signature = hist_signature r then Some (exact_solution r)
      else scan_exact current_signature rows)"

definition find_exact_match :: "row list \<Rightarrow> string \<Rightarrow> pydict \<Rightarrow> string option" where
  "find_exact_match complaint_data complaint_text conditions =
     (if complaint_data = [] then None
      else scan_exact (create_complaint_signature complaint_text conditions) complaint_data)"

section \<open>Location context resolver\<close>

datatype py_error = ValueError | AttributeError

record location_context =
  coverage_quality :: string
  signal_distribution :: string

text \<open>
  The classification of a matched record.  \<open>float\<close> of the percentage text is not
  guarded in the source: a text that is no number raises \<open>ValueError\<close>.
\<close>

definition classify :: "row \<Rightarrow> py_error + location_context" where
  "classify r =
     (case parse_float (remove_char CHR ''%'' (cell_or ''0'' (row_get r ''RSRP >-105dBm (%)''))) of
        None \<Rightarrow> Inl ValueError
      | Some f \<Rightarrow>
          Inr \<lparr>coverage_quality = (if float_gt f 70 then ''Good'' else ''Poor''),
               signal_distribution =
                 ''Good coverage, Fair coverage, Poor coverage based on area signal quality''\<rparr>)"

text \<open>\<open>float(row.get(col, 0))\<close>; \<open>None\<close> is the exception the loop catches.\<close>

definition row_coord :: "row \<Rightarrow> string \<Rightarrow> pyfloat option" where
  "row_coord r col = (case row_get r col of None \<Rightarrow> Some (Fin 0) | Some v \<Rightarrow> cell_float v)"

text \<open>
  The distance of the query point to a row, \<open>None\<close> when it is not a finite number (then
  both comparisons of the loop are false) or when computing it raises (a coordinate that
  is no number).
\<close>

definition row_distance :: "pyval \<Rightarrow> pyval \<Rightarrow> row \<Rightarrow> real option" where
  "row_distance longitude latitude r =
     (case (longitude, latitude, row_coord r ''Lon'', row_coord r ''Lat'') of
        (PFloat (Fin lon), PFloat (Fin lat), Some (Fin row_lon), Some (Fin row_lat)) \<Rightarrow>
          Some (sqrt ((lon - row_lon)\<^sup>2 + (lat - row_lat)\<^sup>2))
      | _ \<Rightarrow> None)"

text \<open>The loop over the rows: the state is \<open>min_distance\<close> (\<open>None\<close> is infinity) and \<open>closest_location\<close>.\<close>

fun closest_scan :: "pyval \<Rightarrow> pyval \<Rightarrow> real option \<times> row option \<Rightarrow> row list \<Rightarrow> real option \<times> row option" where
  "closest_scan longitude latitude st [] = st"
| "closest_scan longitude latitude st (r # rows) =
     closest_scan longitude latitude
       (case row_distance longitude latitude r of
          None \<Rightarrow> st
        | Some distance \<Rightarrow>
            if (case fst st of None \<Rightarrow> True | Some min_distance \<Rightarrow> distance < min_distance) \<and> distance < 0.01
            then (Some distance, Some r) else st)
       rows"

fun contains :: "string \<Rightarrow> string \<Rightarrow> bool" where
  "contains [] sub = (sub = [])"
| "contains (x # xs) sub = (prefix sub (x # xs) \<or> contains xs sub)"

fun name_scan :: "string \<Rightarrow> row list \<Rightarrow> py_error + location_context option" where
  "name_scan location_name [] = Inr None"
| "name_scan location_name (r # rows) =
     (let site_name = lower (cell_or [] (row_get r ''Site Name''))
      in if contains site_name (lower location_name) \<or> contains (lower location_name) site_name
         then (case classify r of Inl e \<Rightarrow> Inl e | Inr c \<Rightarrow> Inr (Some c))
         else name_scan location_name rows)"

definition by_name :: "row list \<Rightarrow> pyval \<Rightarrow> py_error + location_context option" where
  "by_name location_data location_name =
     (case location_name of
        PNone \<Rightarrow> Inr None
      | PStr s \<Rightarrow> if s = [] then Inr None else name_scan s location_data
      | PFloat f \<Rightarrow> if f = Fin 0 then Inr None else Inl AttributeError)"

definition get_location_context :: "row list \<Rightarrow> pydict \<Rightarrow> py_error + location_context option" where
  "get_location_context location_data complaint_details =
     (if location_data = [] then Inr None
      else
        let longitude = dict_get complaint_details ''longitude'';
            latitude = dict_get complaint_details ''latitude'';
            location_name = dict_get complaint_details ''location''
        in if longitude \<noteq> PNone \<and> latitude \<noteq> PNone then
             (case snd (closest_scan longitude latitude (None, None) location_data) of
                None \<Rightarrow> by_name location_data location_name
              | Some closest_location \<Rightarrow>
                  if closest_location = [] then by_name location_data location_name
                  else (case classify closest_location of Inl e \<Rightarrow> Inl e | Inr c \<Rightarrow> Inr (Some c)))
           else by_name location_data location_name)"

section \<open>Similarity retriever\<close>

definition jaccard :: "string set \<Rightarrow> string set \<Rightarrow> real" where
  "jaccard complaint_words issue_words =
     (let intersection = card (complaint_words \<inter> issue_words);
          union = card (complaint_words \<union> issue_words)
      in if 0 < union then real intersection / real union else 0)"

definition complaint_words :: "string \<Rightarrow> string set" where
  "complaint_words complaint_text = set (split (remove_specific_locations (lower complaint_text)))"

definition issue_words :: "string \<Rightarrow> string set" where
  "issue_words issue = set (split (lower (remove_specific_locations issue)))"

text \<open>The score of a complaint text against the issue description of a record.\<close>

definition score :: "string \<Rightarrow> string \<Rightarrow> real" where
  "score complaint_text issue = jaccard (complaint_words complaint_text) (issue_words issue)"

definition similarity :: "string \<Rightarrow> row \<Rightarrow> real" where
  "similarity complaint_text r = score complaint_text (cell_or [] (row_get r ''Issue Description''))"

definition clean_row :: "row \<Rightarrow> row" where
  "clean_row r =
     map (\<lambda>(col, v). if col = ''Solution'' \<or> col = ''Issue Description''
                       then (col, Txt (remove_specific_locations (cell_str v))) else (col, v)) r"

definition similarities :: "string \<Rightarrow> row list \<Rightarrow> (real \<times> row) list" where
  "similarities complaint_text complaint_data =
     map (\<lambda>r. (similarity complaint_text r, clean_row r))
         (filter (\<lambda>r. 0.1 < similarity complaint_text r) complaint_data)"

text \<open>\<open>xs.sort(key=..., reverse=True)\<close> is stable; \<open>xs[:n]\<close> counts a negative \<open>n\<close> from the end.\<close>

definition sort_descending :: "(real \<times> row) list \<Rightarrow> (real \<times> row) list" where
  "sort_descending xs = sort_key (\<lambda>item. - fst item) xs"

definition slice_to :: "int \<Rightarrow> 'a list \<Rightarrow> 'a list" where
  "slice_to n xs = (if 0 \<le> n then take (nat n) xs else take (length xs - nat (- n)) xs)"

definition find_similar_complaints :: "row list \<Rightarrow> string \<Rightarrow> int \<Rightarrow> row list" where
  "find_similar_complaints complaint_data complaint_text top_n =
     (if complaint_data = [] then []
      else map snd (slice_to top_n (sort_descending (similarities complaint_text complaint_data))))"

section \<open>Strategy selector\<close>

text \<open>
  The request: the complaint text and the dictionary of its other entries.  The prompt
  builders and the call of the generation service are one function \<open>llm\<close> of the evidence
  handed to them.
\<close>

datatype prompt =
    ComplaintSolutionPrompt string pydict "row list" location_context
  | PatternAnalysisPrompt string "row list"
  | NewComplaintPrompt string pydict "location_context option"

definition generate_solution ::
  "(prompt \<Rightarrow> string) \<Rightarrow> row list \<Rightarrow> row list \<Rightarrow> string \<Rightarrow> pydict \<Rightarrow> py_error + string \<times> string" where
  "generate_solution llm complaint_data location_data complaint_text complaint_details =
     (case (case find_exact_match complaint_data complaint_text complaint_details of
              None \<Rightarrow> None | Some s \<Rightarrow> if s \<noteq> [] then Some s else None) of
        Some exact \<Rightarrow> Inr (exact, ''exact_match'')
      | None \<Rightarrow>
          (case get_location_context location_data complaint_details of
             Inl e \<Rightarrow> Inl e
           | Inr location_context \<Rightarrow>
               let similar_complaints = find_similar_complaints complaint_data complaint_text 5
               in if similar_complaints \<noteq> [] then
                    (case location_context of
                       Some ctx \<Rightarrow>
                         if 3 \<le> length similar_complaints
                         then Inr (llm (ComplaintSolutionPrompt complaint_text complaint_details
                                          similar_complaints ctx), ''comprehensive_analysis'')
                         else Inr (llm (PatternAnalysisPrompt complaint_text similar_complaints),
                                   ''pattern_analysis'')
                     | None \<Rightarrow> Inr (llm (PatternAnalysisPrompt complaint_text similar_complaints),
                                     ''pattern_analysis''))
                  else Inr (llm (NewComplaintPrompt complaint_text complaint_details location_context),
                            ''new_complaint'')))"

section \<open>Nearest-site lookup\<close>

definition radians :: "real \<Rightarrow> real" where
  "radians x = x * pi / 180"

definition atan2 :: "real \<Rightarrow> real \<Rightarrow> real" where
  "atan2 y x =
     (if 0 < x then arctan (y / x)
      else if x < 0 then (if 0 \<le> y then arctan (y / x) + pi else arctan (y / x) - pi)
      else if 0 < y then pi / 2 else if y < 0 then - pi / 2 else 0)"

definition haversine_distance :: "real \<Rightarrow> real \<Rightarrow> real \<Rightarrow> real \<Rightarrow> real" where
  "haversine_distance lat1 lon1 lat2 lon2 =
     (let R = 6371;
          dlat = radians lat2 - radians lat1;
          dlon = radians lon2 - radians lon1;
          a = (sin (dlat / 2))\<^sup>2 + cos (radians lat1) * cos (radians lat2) * (sin (dlon / 2))\<^sup>2;
          c = 2 * atan2 (sqrt a) (sqrt (1 - a))
      in R * c)"

record site_row =
  site_name :: cell
  rsrp_range_1 :: cell
  rsrp_range_2 :: cell
  rsrp_range_3 :: cell
  rsrp_below_115 :: cell
  corrected_lat :: real
  corrected_lon :: real

record site_info =
  info_site_name :: cell
  info_rsrp_range_1 :: cell
  info_rsrp_range_2 :: cell
  info_rsrp_range_3 :: cell
  info_rsrp_below_115 :: cell
  distance_km :: real

datatype site_response = Sites site_info "site_info list" | NoNearbySite

definition make_site_info :: "site_row \<Rightarrow> real \<Rightarrow> site_info" where
  "make_site_info r distance =
     \<lparr>info_site_name = site_name r, info_rsrp_range_1 = rsrp_range_1 r,
      info_rsrp_range_2 = rsrp_range_2 r, info_rsrp_range_3 = rsrp_range_3 r,
      info_rsrp_below_115 = rsrp_below_115 r, distance_km = distance\<rparr>"

text \<open>The loop: the state is \<open>min_distance\<close> (\<open>None\<close> is infinity), \<open>nearest_site\<close> and \<open>nearby_sites\<close>.\<close>

fun site_scan ::
  "real \<Rightarrow> real \<Rightarrow> real option \<times> site_info option \<times> site_info list \<Rightarrow> site_row list
   \<Rightarrow> real option \<times> site_info option \<times> site_info list" where
  "site_scan lat lon st [] = st"
| "site_scan lat lon (min_distance, nearest_site, nearby_sites) (r # rows) =
     (let distance = haversine_distance lat lon (corrected_lat r) (corrected_lon r);
          info = make_site_info r distance;
          closer = (case min_distance of None \<Rightarrow> True | Some m \<Rightarrow> distance < m)
      in site_scan lat lon
           (if closer then Some distance else min_distance,
            if closer then Some info else nearest_site,
            if distance \<le> 2 then nearby_sites @ [info] else nearby_sites)
           rows)"

definition get_location_data :: "site_row list \<Rightarrow> real \<Rightarrow> real \<Rightarrow> site_response" where
  "get_location_data excel_data lat lon =
     (case site_scan lat lon (None, None, []) excel_data of
        (min_distance, nearest_site, nearby_sites) \<Rightarrow>
          (case nearest_site of
             None \<Rightarrow> NoNearbySite
           | Some nearest \<Rightarrow> Sites nearest (if nearby_sites = [] then [nearest] else nearby_sites)))"

section \<open>The signature input in the order the specification gives\<close>

text \<open>
  The specification builds the signature from the text with the location tokens removed
  first and lower-cased and trimmed afterwards.  This second definition follows those
  words; it is compared with \<open>signature_input\<close>, which follows the source.
\<close>

definition specified_signature_input :: "string \<Rightarrow> pydict \<Rightarrow> string" where
  "specified_signature_input complaint_text conditions =
     strip (lower (remove_specific_locations complaint_text)) @ ''|'' @ condition_str conditions"

section \<open>Equivalent inputs of the signature builder\<close>

text \<open>
  Two texts are the same up to letter case and surrounding whitespace; two condition
  values are the same when both are strings that are the same in this sense, or when they
  are equal; two dictionaries hold the same items when they have the same keys and each
  key has the same value in both, whatever the order of the items.
\<close>

definition same_text :: "string \<Rightarrow> string \<Rightarrow> bool" where
  "same_text a b = (lower (strip a) = lower (strip b))"

fun same_value :: "pyval \<Rightarrow> pyval \<Rightarrow> bool" where
  "same_value (PStr a) (PStr b) = same_text a b"
| "same_value v w = (v = w)"

definition same_items :: "pydict \<Rightarrow> pydict \<Rightarrow> bool" where
  "same_items d1 d2 =
     (set (map fst d1) = set (map fst d2) \<and>
      (\<forall>k \<in> set (map fst d1). same_value (dict_get d1 k) (dict_get d2 k)))"

section \<open>Texts without the separator\<close>

text \<open>
  The signature input joins the normalized text and the \<open>key:value\<close> pairs with \<open>|\<close>.
  A text and a dictionary are free of the separator when neither the normalized text nor
  any of the pairs contains it.
\<close>

definition bar_free :: "string \<Rightarrow> bool" where
  "bar_free s = (CHR ''|'' \<notin> set s)"

definition bar_free_signature :: "string \<Rightarrow> pydict \<Rightarrow> bool" where
  "bar_free_signature complaint_text conditions =
     (bar_free (remove_specific_locations (strip (lower complaint_text))) \<and>
      (\<forall>pair \<in> set (condition_values conditions). bar_free pair))"

section \<open>The shape of a normalized text\<close>

text \<open>
  What \<open>remove_specific_locations\<close> leaves is described by the maximal runs of word
  characters of a text and by its pairs of adjacent characters.  The first five
  substitutions of the normalizer, taken together, are \<open>five_subs\<close>; each of their patterns
  begins and ends with \<open>\b\<close> and begins with a digit or an upper-case letter, so it can only
  match from the start of a run of word characters (\<open>word_pattern\<close>).  The three patterns of
  the punctuation cleanup match whitespace and commas only (\<open>nonword_pattern\<close>).
\<close>

definition hd_nonword :: "string \<Rightarrow> bool" where
  "hd_nonword s = (case s of [] \<Rightarrow> True | x # _ \<Rightarrow> \<not> is_word x)"

definition start_ok :: "char option \<Rightarrow> string \<Rightarrow> bool" where
  "start_ok prev s = (\<not> word_opt prev \<or> hd_nonword s)"

function word_runs :: "string \<Rightarrow> string list" where
  "word_runs [] = []"
| "word_runs (x # xs) =
     (if is_word x then (x # takeWhile is_word xs) # word_runs (dropWhile is_word xs)
      else word_runs xs)"
  by pat_completeness auto
termination
  by (relation "measure length") (auto simp: less_Suc_eq_le length_dropWhile_le)

declare word_runs.simps(2) [simp del]

definition word_pattern :: "atom list \<Rightarrow> bool" where
  "word_pattern p =
     ((\<forall>prev s. \<not> start_ok prev s \<longrightarrow> match_at p prev s = None) \<and>
      (\<forall>prev s. hd_nonword s \<longrightarrow> match_at p prev s = None) \<and>
      (\<forall>prev s n. match_at p prev s = Some n \<longrightarrow>
         0 < n \<and> start_ok (Some (s ! (n - 1))) (drop n s)))"

definition nonword_pattern :: "atom list \<Rightarrow> bool" where
  "nonword_pattern p =
     (\<forall>prev s n. match_at p prev s = Some n \<longrightarrow>
        0 < n \<and> n \<le> length s \<and> (\<forall>c \<in> set (take n s). \<not> is_word c))"

text \<open>
  The runs of word characters that the first five substitutions remove or replace: a run
  of digits (\<open>\d+\<close>, and the first part of \<open>\d+\.\d+\<close> and of \<open>\d+%\<close>), a site code
  (\<open>[A-Z]+\d+[A-Z]*\<close>) and a signal level (\<open>\d+dBm\<close>).
\<close>

definition all_digits :: "string \<Rightarrow> bool" where
  "all_digits w = (w \<noteq> [] \<and> (\<forall>x \<in> set w. is_digit x))"

definition site_code :: "string \<Rightarrow> bool" where
  "site_code w = (\<exists>a b c. w = a @ b @ c \<and> a \<noteq> [] \<and> b \<noteq> [] \<and>
     (\<forall>x \<in> set a. is_upper x) \<and> (\<forall>x \<in> set b. is_digit x) \<and> (\<forall>x \<in> set c. is_upper x))"

definition dbm_level :: "string \<Rightarrow> bool" where
  "dbm_level w = (\<exists>b. w = b @ ''dBm'' \<and> b \<noteq> [] \<and> (\<forall>x \<in> set b. is_digit x))"

definition bad_run :: "string \<Rightarrow> bool" where
  "bad_run w = (all_digits w \<or> site_code w \<or> dbm_level w)"

text \<open>The character before the rest of a text, after the segment \<open>w\<close> of it.\<close>

definition prev_seg :: "char option \<Rightarrow> string \<Rightarrow> char option" where
  "prev_seg prev w = (if w = [] then prev else Some (last w))"

definition five_subs :: "string \<Rightarrow> string" where
  "five_subs s =
     re_sub pat_percent []
       (re_sub pat_dbm ''current signal level''
          (re_sub pat_integer []
             (re_sub pat_decimal []
                (re_sub pat_site_code ''the area'' s))))"

text \<open>
  \<open>no_pair R prev s\<close>: no two adjacent characters of \<open>s\<close>, nor \<open>prev\<close> and the first
  character of \<open>s\<close>, are related by \<open>R\<close>.
\<close>

fun no_pair :: "(char \<Rightarrow> char \<Rightarrow> bool) \<Rightarrow> char option \<Rightarrow> string \<Rightarrow> bool" where
  "no_pair R prev [] = True"
| "no_pair R prev (x # xs) =
     ((case prev of None \<Rightarrow> True | Some p \<Rightarrow> \<not> R p x) \<and> no_pair R (Some x) xs)"

definition two_spaces :: "char \<Rightarrow> char \<Rightarrow> bool" where
  "two_spaces a b = (is_space a \<and> is_space b)"

definition space_comma :: "char \<Rightarrow> char \<Rightarrow> bool" where
  "space_comma a b = (is_space a \<and> b = CHR '','')"


definition only_blanks :: "string \<Rightarrow> bool" where
  "only_blanks s = (\<forall>c \<in> set s. is_space c \<longrightarrow> c = CHR '' '')"

text \<open>
  A normalized text: no run of word characters that a substitution would touch, no
  whitespace other than single blanks, none before a comma and none at either end.
\<close>

definition normalized :: "string \<Rightarrow> bool" where
  "normalized u =
     ((\<forall>w \<in> set (word_runs u). \<not> bad_run w) \<and> only_blanks u \<and>
      no_pair two_spaces None u \<and> no_pair space_comma None u \<and> strip u = u)"

section \<open>Properties\<close>

subsection \<open>Empty tables\<close>

text \<open>
  C8.  On an empty complaint corpus \<open>find_exact_match\<close> returns \<open>None\<close> and
  \<open>find_similar_complaints\<close> returns the empty list; on an empty location table
  \<open>get_location_context\<close> returns \<open>None\<close> (a normal return, not an exception) and the
  nearest-site lookup answers that no site was found.
\<close>

theorem empty_tables_give_no_result:
  "find_exact_match [] complaint_text conditions = None \<and>
   find_similar_complaints [] complaint_text top_n = [] \<and>
   get_location_context [] complaint_details = Inr None \<and>
   get_location_data [] lat lon = NoNearbySite"
  by (simp add: find_exact_match_def find_similar_complaints_def get_location_context_def
      get_location_data_def)

subsection \<open>The order of lower-casing and location removal\<close>

text \<open>
  C7.  The source lower-cases and trims the complaint text before it removes the location
  tokens, so a site code such as \<open>ABC123\<close> is no longer upper-case when the site-code
  pattern is tried and stays in the signature input; in the order the specification
  gives, it is replaced.
\<close>

theorem signature_input_keeps_site_code:
  "signature_input ''ABC123 down'' [] = ''abc123 down|'' \<and>
   specified_signature_input ''ABC123 down'' [] = ''the area down|''"
  by code_simp

text \<open>
  C6.  The score lower-cases the incoming complaint before the location removal and a
  record's issue description after it, so it is not symmetric, and a text with a site
  code does not score 1 against itself.
\<close>

theorem score_not_symmetric_on_site_code:
  "score ''ABC123 down'' ''the area down'' = 1 / 4 \<and>
   score ''the area down'' ''ABC123 down'' = 1 \<and>
   score ''ABC123 down'' ''ABC123 down'' = 1 / 4"
  by code_simp

subsection \<open>Unparsable coverage percentage\<close>

lemma distance_to_same_point:
  "row_distance (PFloat (Fin 80)) (PFloat (Fin 7))
     [(''Site Name'', Txt ''Colombo''), (''Lon'', Num 80), (''Lat'', Num 7),
      (''RSRP >-105dBm (%)'', Txt ''N/A'')] = Some 0"
  by (simp add: row_distance_def row_coord_def row_get_def)

lemma classify_unparsable:
  "classify [(''Site Name'', Txt ''Colombo''), (''Lon'', Num 80), (''Lat'', Num 7),
             (''RSRP >-105dBm (%)'', Txt ''N/A'')] = Inl ValueError"
  by code_simp

text \<open>
  C5.  A complaint at the coordinates of a location record whose percentage field is the
  text \<open>N/A\<close>: \<open>get_location_context\<close> raises \<open>ValueError\<close> instead of classifying the
  coverage as Poor.
\<close>

theorem get_location_context_raises_on_unparsable_percentage:
  "get_location_context
     [[(''Site Name'', Txt ''Colombo''), (''Lon'', Num 80), (''Lat'', Num 7),
       (''RSRP >-105dBm (%)'', Txt ''N/A'')]]
     [(''longitude'', PFloat (Fin 80)), (''latitude'', PFloat (Fin 7))]
   = Inl ValueError"
  by (simp add: get_location_context_def dict_get_def distance_to_same_point classify_unparsable)

text \<open>
  C1.  For the same location record and request, with no exact match (here an empty
  corpus), \<open>generate_solution\<close> ends in that \<open>ValueError\<close> and yields no strategy label.
\<close>

theorem generate_solution_raises_on_unparsable_percentage:
  "generate_solution (\<lambda>prompt. ''reply'') []
     [[(''Site Name'', Txt ''Colombo''), (''Lon'', Num 80), (''Lat'', Num 7),
       (''RSRP >-105dBm (%)'', Txt ''N/A'')]]
     ''no signal''
     [(''longitude'', PFloat (Fin 80)), (''latitude'', PFloat (Fin 7))]
   = Inl ValueError"
  by (simp add: generate_solution_def find_exact_match_def get_location_context_def dict_get_def
      distance_to_same_point classify_unparsable)

subsection \<open>Invariance of the signature\<close>

lemma code_less_256: "code c < 256"
  unfolding code_def using of_char_mod_256[of c, where 'a = nat]
  by (metis mod_less_divisor zero_less_numeral)

lemma is_space_lower_char: "is_space (lower_char c) = is_space c"
  using code_less_256[of c]
  by (auto simp: is_space_def lower_char_def code_def Let_def)

lemma strip_lower: "strip (lower s) = lower (strip s)"
proof -
  have "is_space \<circ> lower_char = is_space"
    by (rule ext) (simp add: is_space_lower_char)
  then show ?thesis
    by (simp add: strip_def lower_def dropWhile_map rev_map)
qed

lemma dict_get_absent: "k \<notin> set (map fst d) \<Longrightarrow> dict_get d k = PNone"
  by (simp add: dict_get_def map_of_eq_None_iff[THEN iffD2])

lemma same_items_all_keys:
  assumes "same_items d1 d2"
  shows "same_value (dict_get d1 k) (dict_get d2 k)"
proof (cases "k \<in> set (map fst d1)")
  case True
  from assms have "\<forall>k \<in> set (map fst d1). same_value (dict_get d1 k) (dict_get d2 k)"
    unfolding same_items_def by (rule conjunct2)
  then show ?thesis using True by (rule bspec)
next
  case False
  moreover from assms have "set (map fst d1) = set (map fst d2)"
    unfolding same_items_def by (rule conjunct1)
  with False have "k \<notin> set (map fst d2)" by blast
  ultimately show ?thesis by (simp add: dict_get_absent)
qed

lemma same_items_empty: "same_items d1 d2 \<Longrightarrow> (d1 = []) = (d2 = [])"
  by (cases d1; cases d2) (auto simp: same_items_def)

lemma condition_value_same: "same_value v w \<Longrightarrow> condition_value key v = condition_value key w"
  by (cases v; cases w) (auto simp: condition_value_def same_text_def strip_lower)

text \<open>
  C3.  The digest does not depend on the order in which the condition dictionary holds
  its items, nor on letter case and surrounding whitespace in the complaint text and in
  string-valued conditions: for texts that are the same in this sense and dictionaries
  with the same items, \<open>create_complaint_signature\<close> returns the same digest.
\<close>

theorem signature_invariant:
  assumes "same_text t1 t2" and "same_items d1 d2"
  shows "create_complaint_signature t1 d1 = create_complaint_signature t2 d2"
proof -
  have "condition_value key (dict_get d1 key) = condition_value key (dict_get d2 key)" for key
    using same_items_all_keys[OF assms(2)] by (rule condition_value_same)
  then have "condition_values d1 = condition_values d2"
    by (simp add: condition_values_def)
  with same_items_empty[OF assms(2)] have "condition_str d1 = condition_str d2"
    by (simp add: condition_str_def)
  moreover from assms(1) have "strip (lower t1) = strip (lower t2)"
    by (simp add: same_text_def strip_lower)
  ultimately show ?thesis
    by (simp add: create_complaint_signature_def signature_input_def)
qed

text \<open>A dictionary with its items in another order has the same items.\<close>

lemma same_value_refl: "same_value v v"
  by (cases v) (simp_all add: same_text_def)

lemma reordered_same_items:
  assumes "distinct (map fst d1)" and "distinct (map fst d2)" and "set d2 = set d1"
  shows "same_items d1 d2"
proof -
  from assms have "map_of d1 = map_of d2"
    by (simp add: map_of_inject_set)
  then have "dict_get d1 k = dict_get d2 k" for k
    by (simp add: dict_get_def)
  moreover from assms(3) have "set (map fst d1) = set (map fst d2)"
    by simp
  ultimately show ?thesis
    by (simp add: same_items_def same_value_refl)
qed

theorem signature_invariant_witness:
  "same_text '' No Signal  '' ''no signal'' \<and>
   same_items [(''signal_strength'', PStr ''Weak''), (''location'', PStr ''Colombo''), (''longitude'', PFloat (Fin 80))]
              [(''longitude'', PFloat (Fin 80)), (''location'', PStr '' colombo ''), (''signal_strength'', PStr ''WEAK'')] \<and>
   create_complaint_signature '' No Signal  '' [(''signal_strength'', PStr ''Weak''), (''location'', PStr ''Colombo''), (''longitude'', PFloat (Fin 80))]
   = create_complaint_signature ''no signal'' [(''longitude'', PFloat (Fin 80)), (''location'', PStr '' colombo ''), (''signal_strength'', PStr ''WEAK'')]"
proof -
  have t: "same_text '' No Signal  '' ''no signal''"
    by code_simp
  have i: "same_items [(''signal_strength'', PStr ''Weak''), (''location'', PStr ''Colombo''), (''longitude'', PFloat (Fin 80))]
              [(''longitude'', PFloat (Fin 80)), (''location'', PStr '' colombo ''), (''signal_strength'', PStr ''WEAK'')]"
    by code_simp
  from t i signature_invariant[OF t i] show ?thesis by blast
qed

subsection \<open>Ranking of similar complaints\<close>

lemma slice_to_nonneg: "0 \<le> n \<Longrightarrow> slice_to n xs = take (nat n) xs"
  by (simp add: slice_to_def)

lemma filter_take_prefix: "prefix (filter P (take n xs)) (filter P xs)"
proof -
  have "filter P xs = filter P (take n xs) @ filter P (drop n xs)"
    by (metis append_take_drop_id filter_append)
  then show ?thesis by (simp add: prefixI)
qed

lemma similarities_items:
  "item \<in> set (similarities complaint_text complaint_data) \<Longrightarrow>
   0.1 < fst item \<and>
   (\<exists>r \<in> set complaint_data. fst item = similarity complaint_text r \<and> snd item = clean_row r)"
  by (auto simp: similarities_def)

lemma sort_descending_sorted: "sorted_wrt (\<lambda>a b. b \<le> a) (map fst (sort_descending xs))"
proof -
  have "sorted (map (\<lambda>item. - fst item) (sort_key (\<lambda>item. - fst item) xs))"
    by (rule sorted_sort_key)
  then show ?thesis
    by (simp add: sort_descending_def sorted_wrt_map)
qed

lemma sort_descending_stable:
  "filter (\<lambda>item. fst item = v) (sort_descending xs) = filter (\<lambda>item. fst item = v) xs"
proof -
  have "filter (\<lambda>item. - fst item = - v) (sort_key (\<lambda>item. - fst item) xs)
        = filter (\<lambda>item. - fst item = - v) xs"
    by (rule sort_key_stable)
  then show ?thesis by (simp add: sort_descending_def)
qed

text \<open>
  C4, for a non-negative \<open>top_n\<close>.  The records returned are those of the first
  \<open>top_n\<close> items of the ranking: at most \<open>top_n\<close> records; each item carries the score
  of a corpus record, greater than 0.1, and that record with its texts normalized; the
  scores do not increase along the ranking; items of equal score keep the order of the
  corpus; and a corpus that is empty or has no record scoring above 0.1 gives the empty
  list.
\<close>

theorem find_similar_complaints_ranked:
  assumes "0 \<le> top_n"
  shows
   "(let ranked = slice_to top_n (sort_descending (similarities complaint_text complaint_data));
         found = find_similar_complaints complaint_data complaint_text top_n
     in found = map snd ranked \<and>
        length found \<le> nat top_n \<and>
        (\<forall>item \<in> set ranked. 0.1 < fst item \<and>
           (\<exists>r \<in> set complaint_data. fst item = similarity complaint_text r \<and> snd item = clean_row r)) \<and>
        sorted_wrt (\<lambda>a b. b \<le> a) (map fst ranked) \<and>
        (\<forall>v. prefix (filter (\<lambda>item. fst item = v) ranked)
                     (filter (\<lambda>item. fst item = v) (similarities complaint_text complaint_data))) \<and>
        ((\<forall>r \<in> set complaint_data. \<not> 0.1 < similarity complaint_text r) \<longrightarrow> found = []))"
proof -
  define sims where "sims = similarities complaint_text complaint_data"
  define ranked where "ranked = slice_to top_n (sort_descending sims)"
  define found where "found = find_similar_complaints complaint_data complaint_text top_n"
  have ranked: "ranked = take (nat top_n) (sort_descending sims)"
    using assms by (simp add: ranked_def slice_to_nonneg)
  have "complaint_data = [] \<Longrightarrow> sims = []"
    by (simp add: sims_def similarities_def)
  then have a: "found = map snd ranked"
    by (cases "complaint_data = []")
       (simp_all add: found_def find_similar_complaints_def ranked sort_descending_def sims_def
          slice_to_nonneg[OF assms])
  have b: "length found \<le> nat top_n"
    by (simp add: a ranked)
  have "set ranked \<subseteq> set sims"
    using set_take_subset[of "nat top_n" "sort_descending sims"]
    by (simp add: ranked sort_descending_def)
  then have c: "\<forall>item \<in> set ranked. 0.1 < fst item \<and>
      (\<exists>r \<in> set complaint_data. fst item = similarity complaint_text r \<and> snd item = clean_row r)"
    using similarities_items[of _ complaint_text complaint_data] unfolding sims_def by blast
  have d: "sorted_wrt (\<lambda>a b. b \<le> a) (map fst ranked)"
    using sort_descending_sorted[of sims]
    by (simp add: ranked take_map[symmetric] sorted_wrt_take)
  have e: "prefix (filter (\<lambda>item. fst item = v) ranked) (filter (\<lambda>item. fst item = v) sims)" for v
    using filter_take_prefix[of "\<lambda>item. fst item = v" "nat top_n" "sort_descending sims"]
    by (simp add: ranked sort_descending_stable)
  have f: "(\<forall>r \<in> set complaint_data. \<not> 0.1 < similarity complaint_text r) \<longrightarrow> found = []"
  proof
    assume "\<forall>r \<in> set complaint_data. \<not> 0.1 < similarity complaint_text r"
    then have "sims = []"
      by (simp add: sims_def similarities_def filter_empty_conv)
    then show "found = []"
      by (simp add: a ranked sort_descending_def)
  qed
  from a b c d e f show ?thesis
    unfolding Let_def sims_def[symmetric] ranked_def[symmetric] found_def[symmetric] by blast
qed

theorem find_similar_complaints_ranked_witness:
  "(0 :: int) \<le> 5 \<and>
   (let ranked = slice_to 5 (sort_descending (similarities ''no signal''
          [[(''Issue Description'', Txt ''no signal''), (''Solution'', Txt ''restart the phone'')],
           [(''Issue Description'', Txt ''no signal at home''), (''Solution'', Txt ''check the router'')]]));
        found = find_similar_complaints
          [[(''Issue Description'', Txt ''no signal''), (''Solution'', Txt ''restart the phone'')],
           [(''Issue Description'', Txt ''no signal at home''), (''Solution'', Txt ''check the router'')]]
          ''no signal'' 5
    in found = map snd ranked \<and>
       length found \<le> nat 5 \<and>
       (\<forall>item \<in> set ranked. 0.1 < fst item \<and>
          (\<exists>r \<in> set [[(''Issue Description'', Txt ''no signal''), (''Solution'', Txt ''restart the phone'')],
           [(''Issue Description'', Txt ''no signal at home''), (''Solution'', Txt ''check the router'')]].
             fst item = similarity ''no signal'' r \<and> snd item = clean_row r)) \<and>
       sorted_wrt (\<lambda>a b. b \<le> a) (map fst ranked) \<and>
       (\<forall>v. prefix (filter (\<lambda>item. fst item = v) ranked)
                    (filter (\<lambda>item. fst item = v) (similarities ''no signal''
          [[(''Issue Description'', Txt ''no signal''), (''Solution'', Txt ''restart the phone'')],
           [(''Issue Description'', Txt ''no signal at home''), (''Solution'', Txt ''check the router'')]]))) \<and>
       ((\<forall>r \<in> set [[(''Issue Description'', Txt ''no signal''), (''Solution'', Txt ''restart the phone'')],
           [(''Issue Description'', Txt ''no signal at home''), (''Solution'', Txt ''check the router'')]].
            \<not> 0.1 < similarity ''no signal'' r) \<longrightarrow> found = []))"
proof -
  have h: "(0 :: int) \<le> 5" by simp
  show ?thesis using h find_similar_complaints_ranked[OF h] by (rule conjI)
qed

text \<open>
  C4 as stated fails for a negative \<open>top_n\<close>: the slice \<open>[:-1]\<close> drops the last item of
  the ranking, so with two qualifying records one is returned for \<open>top_n = -1\<close>.
\<close>

lemma two_rows_negative_top_n:
  "find_similar_complaints
     [[(''Issue Description'', Txt ''no signal''), (''Solution'', Txt ''restart the phone'')],
      [(''Issue Description'', Txt ''no signal at home''), (''Solution'', Txt ''check the router'')]]
     ''no signal'' (- 1)
   = [[(''Issue Description'', Txt ''no signal''), (''Solution'', Txt ''restart the phone'')]]"
  by code_simp

theorem find_similar_complaints_negative_top_n:
  "\<not> int (length (find_similar_complaints
     [[(''Issue Description'', Txt ''no signal''), (''Solution'', Txt ''restart the phone'')],
      [(''Issue Description'', Txt ''no signal at home''), (''Solution'', Txt ''check the router'')]]
     ''no signal'' (- 1))) \<le> - 1"
  by simp

subsection \<open>The joined condition pairs\<close>

lemma join_Cons: "join sep (x # xs) = (if xs = [] then x else x @ sep @ join sep xs)"
  by (cases xs) simp_all

lemma takeWhile_bar: "c \<notin> set x \<Longrightarrow> takeWhile (\<lambda>a. a \<noteq> c) (x @ c # r) = x"
  by (induction x) auto

lemma takeWhile_nobar: "c \<notin> set x \<Longrightarrow> takeWhile (\<lambda>a. a \<noteq> c) x = x"
  by (induction x) auto

lemma dropWhile_bar: "c \<notin> set x \<Longrightarrow> dropWhile (\<lambda>a. a \<noteq> c) (x @ c # r) = c # r"
  by (induction x) auto

lemma join_head:
  assumes "\<forall>x \<in> set (x # xs). c \<notin> set x"
  shows "takeWhile (\<lambda>a. a \<noteq> c) (join [c] (x # xs)) = x"
  using assms by (cases xs) (simp_all add: takeWhile_nobar takeWhile_bar)

lemma join_nonempty: "xs \<noteq> [] \<Longrightarrow> \<forall>x \<in> set xs. x \<noteq> [] \<Longrightarrow> join sep xs \<noteq> []"
  by (cases xs) (auto simp: join_Cons)

lemma join_inject:
  assumes "\<forall>x \<in> set xs. x \<noteq> [] \<and> c \<notin> set x" and "\<forall>y \<in> set ys. y \<noteq> [] \<and> c \<notin> set y"
    and "join [c] xs = join [c] ys"
  shows "xs = ys"
  using assms
proof (induction xs arbitrary: ys)
  case Nil
  then show ?case using join_nonempty[of ys "[c]"] by (cases "ys = []") auto
next
  case (Cons x xs)
  show ?case
  proof (cases ys)
    case Nil
    with Cons.prems show ?thesis using join_nonempty[of "x # xs" "[c]"] by auto
  next
    case (Cons y ys')
    from Cons.prems(1) have hx: "\<forall>z \<in> set (x # xs). c \<notin> set z" by auto
    from Cons.prems(2) Cons have hy: "\<forall>z \<in> set (y # ys'). c \<notin> set z" by auto
    from join_head[OF hx] join_head[OF hy] Cons.prems(3) Cons have xy: "x = y" by simp
    have rest: "join [c] xs = join [c] ys'"
    proof (cases "xs = []")
      case True
      with Cons.prems(3) Cons xy have "ys' = []" by (auto simp: join_Cons split: if_splits)
      with True show ?thesis by simp
    next
      case False
      with Cons.prems(3) Cons xy have "ys' \<noteq> []" by (auto simp: join_Cons split: if_splits)
      with False Cons.prems(3) Cons xy show ?thesis by (simp add: join_Cons)
    qed
    from Cons.IH[OF _ _ rest] Cons.prems(1,2) Cons have "xs = ys'" by auto
    with xy Cons show ?thesis by simp
  qed
qed


lemma condition_value_form:
  "p \<in> set (condition_value k v) \<Longrightarrow> \<exists>w. p = k @ CHR '':'' # w"
  by (auto simp: condition_value_def split: if_splits)

lemma condition_values_slot:
  "p \<in> set (condition_values d) \<Longrightarrow>
   \<exists>k \<in> set all_conditions. p \<in> set (condition_value k (dict_get d k))"
  by (auto simp: condition_values_def)

lemma condition_values_slotI:
  "k \<in> set all_conditions \<Longrightarrow> p \<in> set (condition_value k (dict_get d k)) \<Longrightarrow>
   p \<in> set (condition_values d)"
  by (auto simp: condition_values_def)

lemma all_conditions_no_colon: "k \<in> set all_conditions \<Longrightarrow> CHR '':'' \<notin> set k"
  by (auto simp: all_conditions_def)

lemma pair_key:
  assumes "k \<in> set all_conditions" and "p \<in> set (condition_value k v)"
  shows "takeWhile (\<lambda>a. a \<noteq> CHR '':'') p = k"
proof -
  from condition_value_form[OF assms(2)] obtain w where "p = k @ CHR '':'' # w" by blast
  with all_conditions_no_colon[OF assms(1)] show ?thesis by (simp add: takeWhile_bar)
qed

lemma condition_values_key:
  assumes "k \<in> set all_conditions" and "p \<in> set (condition_value k v)"
    and "p \<in> set (condition_values d)"
  shows "p \<in> set (condition_value k (dict_get d k))"
proof -
  from condition_values_slot[OF assms(3)] obtain k2 where
    k2: "k2 \<in> set all_conditions" "p \<in> set (condition_value k2 (dict_get d k2))" by blast
  from pair_key[OF assms(1,2)] pair_key[OF k2] have "k2 = k" by simp
  with k2 show ?thesis by simp
qed

lemma condition_values_nonempty: "p \<in> set (condition_values d) \<Longrightarrow> p \<noteq> []"
  using condition_values_slot condition_value_form by fastforce

lemma condition_str_join: "condition_str d = join ''|'' (sort (condition_values d))"
proof (cases "d = []")
  case True
  then have "condition_values d = []"
    by (simp add: condition_values_def condition_value_def dict_get_def)
  with True show ?thesis by (simp add: condition_str_def)
next
  case False
  then show ?thesis by (simp add: condition_str_def)
qed

lemma condition_str_inject:
  assumes "\<forall>p \<in> set (condition_values d). bar_free p"
    and "\<forall>p \<in> set (condition_values d'). bar_free p"
    and "condition_str d = condition_str d'"
  shows "set (condition_values d) = set (condition_values d')"
proof -
  have "sort (condition_values d) = sort (condition_values d')"
  proof (rule join_inject[where c = "CHR ''|''"])
    show "\<forall>x \<in> set (sort (condition_values d)). x \<noteq> [] \<and> CHR ''|'' \<notin> set x"
      using assms(1) condition_values_nonempty by (auto simp: bar_free_def)
    show "\<forall>y \<in> set (sort (condition_values d')). y \<noteq> [] \<and> CHR ''|'' \<notin> set y"
      using assms(2) condition_values_nonempty by (auto simp: bar_free_def)
    show "join ''|'' (sort (condition_values d)) = join ''|'' (sort (condition_values d'))"
      using assms(3) by (simp add: condition_str_join)
  qed
  then have "set (sort (condition_values d)) = set (sort (condition_values d'))" by simp
  then show ?thesis by simp
qed

lemma signature_input_inject:
  assumes "bar_free_signature t d" and "bar_free_signature t' d'"
    and "signature_input t d = signature_input t' d'"
  shows "set (condition_values d) = set (condition_values d')"
proof -
  let ?n = "remove_specific_locations (strip (lower t))"
  let ?n' = "remove_specific_locations (strip (lower t'))"
  from assms(1,2) have n: "CHR ''|'' \<notin> set ?n" "CHR ''|'' \<notin> set ?n'"
    by (simp_all add: bar_free_signature_def bar_free_def)
  from assms(3) have eq: "?n @ CHR ''|'' # condition_str d = ?n' @ CHR ''|'' # condition_str d'"
    by (simp add: signature_input_def)
  from arg_cong[OF eq, of "dropWhile (\<lambda>a. a \<noteq> CHR ''|'')"] n
  have "condition_str d = condition_str d'"
    by (simp add: dropWhile_bar)
  with assms(1,2) show ?thesis
    by (intro condition_str_inject) (simp_all add: bar_free_signature_def)
qed

subsection \<open>Exact match and the location name\<close>

lemma hist_text_condition_key: "item \<in> set (hist_text_condition r ck) \<Longrightarrow> fst item = snd ck"
  by (auto simp: hist_text_condition_def split: option.splits if_splits)

lemma hist_coord_condition_key: "item \<in> set (hist_coord_condition r ck) \<Longrightarrow> fst item = snd ck"
proof (cases "row_get r (fst ck)")
  case None
  then show "item \<in> set (hist_coord_condition r ck) \<Longrightarrow> fst item = snd ck"
    by (simp add: hist_coord_condition_def)
next
  case (Some v)
  then show "item \<in> set (hist_coord_condition r ck) \<Longrightarrow> fst item = snd ck"
    by (cases "cell_float v"; cases "v = NaN")
       (auto simp: hist_coord_condition_def split: if_splits)
qed

lemma hist_conditions_keys:
  "fst ` set (hist_conditions r) \<subseteq> snd ` set (text_columns @ coord_columns)"
proof
  fix k assume "k \<in> fst ` set (hist_conditions r)"
  then obtain item where item: "item \<in> set (hist_conditions r)" and k: "k = fst item" by blast
  from item consider ck where "ck \<in> set text_columns" "item \<in> set (hist_text_condition r ck)"
    | ck where "ck \<in> set coord_columns" "item \<in> set (hist_coord_condition r ck)"
    unfolding hist_conditions_def by auto
  then show "k \<in> snd ` set (text_columns @ coord_columns)"
  proof cases
    case 1
    with hist_text_condition_key[OF 1(2)] k show ?thesis by auto
  next
    case 2
    with hist_coord_condition_key[OF 2(2)] k show ?thesis by auto
  qed
qed

lemma hist_location_absent: "dict_get (hist_conditions r) ''location'' = PNone"
proof -
  have "''location'' \<notin> snd ` set (text_columns @ coord_columns)"
    by (simp add: text_columns_def coord_columns_def)
  with hist_conditions_keys[of r] have "''location'' \<notin> fst ` set (hist_conditions r)"
    by blast
  then have "map_of (hist_conditions r) ''location'' = None"
    by (simp add: map_of_eq_None_iff)
  then show ?thesis by (simp add: dict_get_def)
qed

lemma location_pair_not_historical:
  assumes "condition_value ''location'' (dict_get c ''location'') \<noteq> []"
  shows "set (condition_values c) \<noteq> set (condition_values (hist_conditions r))"
proof
  assume eq: "set (condition_values c) = set (condition_values (hist_conditions r))"
  from assms obtain p where p: "p \<in> set (condition_value ''location'' (dict_get c ''location''))"
    by (cases "condition_value ''location'' (dict_get c ''location'')") auto
  have k: "''location'' \<in> set all_conditions"
    by (simp add: all_conditions_def)
  from condition_values_slotI[OF k p] eq have "p \<in> set (condition_values (hist_conditions r))"
    by simp
  from condition_values_key[OF k p this]
  show False by (simp add: hist_location_absent condition_value_def)
qed

lemma find_exact_match_find:
  "find_exact_match C t c =
   map_option exact_solution (find (\<lambda>r. hist_signature r = create_complaint_signature t c) C)"
proof -
  have "scan_exact s C = map_option exact_solution (find (\<lambda>r. hist_signature r = s) C)" for s
    by (induction C) auto
  then show ?thesis by (cases C) (simp_all add: find_exact_match_def)
qed

lemma find_exact_match_SomeD:
  assumes "find_exact_match C t c = Some s"
  shows "\<exists>r \<in> set C. hist_signature r = create_complaint_signature t c \<and> s = exact_solution r"
proof -
  from assms obtain r where "find (\<lambda>r. hist_signature r = create_complaint_signature t c) C = Some r"
    and "s = exact_solution r"
    by (auto simp: find_exact_match_find)
  then show ?thesis by (auto simp: find_Some_iff)
qed

text \<open>
  C10, for texts and values without the separator.  If the incoming conditions carry a
  location name that is no sentinel, and neither the incoming complaint nor any record
  of the corpus has the separator \<open>|\<close> in its normalized text or in a \<open>key:value\<close>
  pair, then the signature input of the incoming complaint differs from the one
  re-derived for every record, because the pair for the key \<open>location\<close> occurs in the
  former only; so \<open>find_exact_match\<close> returns \<open>None\<close>, unless the MD5 digests of two
  different inputs coincide.
\<close>

theorem location_name_never_matches:
  assumes "condition_value ''location'' (dict_get conditions ''location'') \<noteq> []"
    and "bar_free_signature complaint_text conditions"
    and "\<forall>r \<in> set complaint_data. bar_free_signature (hist_issue_desc r) (hist_conditions r)"
  shows "(\<forall>r \<in> set complaint_data. signature_input complaint_text conditions \<noteq> hist_signature_input r) \<and>
         (find_exact_match complaint_data complaint_text conditions = None \<or>
          (\<exists>r \<in> set complaint_data.
             hist_signature r = create_complaint_signature complaint_text conditions \<and>
             signature_input complaint_text conditions \<noteq> hist_signature_input r))"
proof -
  have differ: "signature_input complaint_text conditions \<noteq> hist_signature_input r"
    if "r \<in> set complaint_data" for r
  proof
    assume "signature_input complaint_text conditions = hist_signature_input r"
    then have "set (condition_values conditions) = set (condition_values (hist_conditions r))"
      using assms(2,3) that unfolding hist_signature_input_def
      by (intro signature_input_inject) auto
    with location_pair_not_historical[OF assms(1)] show False by blast
  qed
  moreover have "find_exact_match complaint_data complaint_text conditions = None \<or>
          (\<exists>r \<in> set complaint_data.
             hist_signature r = create_complaint_signature complaint_text conditions \<and>
             signature_input complaint_text conditions \<noteq> hist_signature_input r)"
  proof (cases "find_exact_match complaint_data complaint_text conditions")
    case None
    then show ?thesis by simp
  next
    case (Some s)
    from find_exact_match_SomeD[OF Some] differ show ?thesis by blast
  qed
  ultimately show ?thesis by blast
qed

subsection \<open>Exact-match resolver\<close>

lemma equal_inputs_match:
  assumes "r \<in> set C" and "signature_input t c = hist_signature_input r"
  shows "find_exact_match C t c \<noteq> None"
proof -
  from assms(2) have "hist_signature r = create_complaint_signature t c"
    by (simp add: hist_signature_def hist_signature_input_def create_complaint_signature_def)
  with assms(1) have "find (\<lambda>r. hist_signature r = create_complaint_signature t c) C \<noteq> None"
    by (auto simp: find_None_iff)
  then show ?thesis by (simp add: find_exact_match_find)
qed

lemma verbatim_input: "signature_input ''ABC123 down'' [] = ''abc123 down|''"
  by code_simp

lemma verbatim_row_input:
  "hist_signature_input [(''Issue Description'', Txt ''ABC123 down''), (''Solution'', Txt ''Restart'')]
   = ''the area down|''"
  by code_simp

text \<open>
  C2.  A complaint that is word for word the issue description of a stored record, with no
  conditions on either side, has the normalized text and the condition set re-derived
  from that record.  The source lower-cases the incoming text before it removes the
  location tokens and normalizes the record's text first, so the digests are taken over
  two different inputs and the record is not matched: \<open>find_exact_match\<close> returns its
  solution only if the MD5 digests of these two inputs were equal.
\<close>

theorem verbatim_record_is_not_matched:
  "signature_input ''ABC123 down'' [] = ''abc123 down|'' \<and>
   hist_signature_input [(''Issue Description'', Txt ''ABC123 down''), (''Solution'', Txt ''Restart'')]
     = ''the area down|'' \<and>
   find_exact_match [[(''Issue Description'', Txt ''ABC123 down''), (''Solution'', Txt ''Restart'')]]
     ''ABC123 down'' []
   = (if md5_hexdigest (utf8 ''abc123 down|'') = md5_hexdigest (utf8 ''the area down|'')
      then Some (exact_solution [(''Issue Description'', Txt ''ABC123 down''), (''Solution'', Txt ''Restart'')])
      else None)"
proof -
  let ?r = "[(''Issue Description'', Txt ''ABC123 down''), (''Solution'', Txt ''Restart'')]"
  have "hist_signature ?r = md5_hexdigest (utf8 ''the area down|'')"
    using verbatim_row_input
    by (simp only: hist_signature_def hist_signature_input_def create_complaint_signature_def)
  moreover have "create_complaint_signature ''ABC123 down'' [] = md5_hexdigest (utf8 ''abc123 down|'')"
    by (simp only: create_complaint_signature_def verbatim_input)
  ultimately have "find_exact_match [?r] ''ABC123 down'' []
      = (if md5_hexdigest (utf8 ''abc123 down|'') = md5_hexdigest (utf8 ''the area down|'')
         then Some (exact_solution ?r) else None)"
    by (simp add: find_exact_match_def)
  with verbatim_input verbatim_row_input show ?thesis by blast
qed

lemma injected_row_input:
  "hist_signature_input [(''Issue Description'', Txt ''a|location:b''), (''Solution'', Txt ''Restart'')]
   = ''a|location:b|''"
  by code_simp

lemma injected_input: "signature_input ''a'' [(''location'', PStr ''b|'')] = ''a|location:b|''"
  by code_simp

text \<open>
  C10 as stated fails: a location name ending in the separator and a record whose issue
  description holds the rest of the pair give the same signature input.
\<close>

theorem location_name_matches_by_separator:
  "condition_value ''location'' (dict_get [(''location'', PStr ''b|'')] ''location'') \<noteq> [] \<and>
   find_exact_match [[(''Issue Description'', Txt ''a|location:b''), (''Solution'', Txt ''Restart'')]]
     ''a'' [(''location'', PStr ''b|'')] \<noteq> None"
proof -
  let ?r = "[(''Issue Description'', Txt ''a|location:b''), (''Solution'', Txt ''Restart'')]"
  have "condition_value ''location'' (dict_get [(''location'', PStr ''b|'')] ''location'') \<noteq> []"
    by code_simp
  moreover have "find_exact_match [?r] ''a'' [(''location'', PStr ''b|'')] \<noteq> None"
    by (rule equal_inputs_match[of ?r]) (simp_all only: injected_input injected_row_input list.set_intros)
  ultimately show ?thesis by blast
qed

theorem location_name_never_matches_witness:
  "condition_value ''location'' (dict_get [(''signal_strength'', PStr ''weak''), (''location'', PStr ''Colombo'')] ''location'') \<noteq> [] \<and>
   bar_free_signature ''no signal'' [(''signal_strength'', PStr ''weak''), (''location'', PStr ''Colombo'')] \<and>
   bar_free_signature
     (hist_issue_desc [(''Issue Description'', Txt ''no signal''), (''Signal Strength'', Txt ''weak''), (''Solution'', Txt ''Restart'')])
     (hist_conditions [(''Issue Description'', Txt ''no signal''), (''Signal Strength'', Txt ''weak''), (''Solution'', Txt ''Restart'')]) \<and>
   signature_input ''no signal'' [(''signal_strength'', PStr ''weak''), (''location'', PStr ''Colombo'')] \<noteq>
     hist_signature_input [(''Issue Description'', Txt ''no signal''), (''Signal Strength'', Txt ''weak''), (''Solution'', Txt ''Restart'')]"
proof -
  let ?r = "[(''Issue Description'', Txt ''no signal''), (''Signal Strength'', Txt ''weak''), (''Solution'', Txt ''Restart'')]"
  have 1: "condition_value ''location'' (dict_get [(''signal_strength'', PStr ''weak''), (''location'', PStr ''Colombo'')] ''location'') \<noteq> []"
    by code_simp
  have 2: "bar_free_signature ''no signal'' [(''signal_strength'', PStr ''weak''), (''location'', PStr ''Colombo'')]"
    by code_simp
  have 3: "bar_free_signature (hist_issue_desc ?r) (hist_conditions ?r)"
    by code_simp
  then have 4: "\<forall>r \<in> set [?r]. bar_free_signature (hist_issue_desc r) (hist_conditions r)"
    by simp
  from location_name_never_matches[OF 1 2 4] have
    "signature_input ''no signal'' [(''signal_strength'', PStr ''weak''), (''location'', PStr ''Colombo'')] \<noteq>
       hist_signature_input ?r"
    by simp
  with 1 2 3 show ?thesis by blast
qed

subsection \<open>The normalizer applied twice\<close>

text \<open>
  The result of the normalizer is a normalized text, and the normalizer returns a normalized
  text without two adjacent commas unchanged.  The proof follows the eight substitutions:
  what the first five do is read off the runs of word characters, what the last three do
  off the pairs of adjacent characters.
\<close>

subsubsection \<open>The matcher on greedy repetitions\<close>

lemma first_some_None_iff: "first_some xs = None \<longleftrightarrow> (\<forall>x \<in> set xs. x = None)"
proof (induction xs)
  case Nil
  show ?case by simp
next
  case (Cons a xs)
  then show ?case by (cases a) simp_all
qed

lemma match_many_SomeD:
  assumes "match_at (Many c lo # as) prev s = Some m"
  obtains k j where "lo \<le> k" and "k \<le> length (takeWhile (in_class c) s)"
    and "match_at as (prev_at prev s k) (drop k s) = Some j" and "m = k + j"
proof -
  from assms have "Some m \<in> set (map (\<lambda>k. map_option (\<lambda>n. k + n)
      (match_at as (prev_at prev s k) (drop k s))) (rev [lo ..< Suc (length (takeWhile (in_class c) s))]))"
    by (intro first_some_SomeD) (simp only: match_at.simps)
  then obtain k where k: "k \<in> set (rev [lo ..< Suc (length (takeWhile (in_class c) s))])"
    and e: "Some m = map_option (\<lambda>n. k + n) (match_at as (prev_at prev s k) (drop k s))"
    by (auto simp only: set_map image_iff)
  from e obtain j where "match_at as (prev_at prev s k) (drop k s) = Some j" and "m = k + j"
    by (cases "match_at as (prev_at prev s k) (drop k s)") auto
  moreover from k have "lo \<le> k" "k \<le> length (takeWhile (in_class c) s)" by auto
  ultimately show thesis using that by blast
qed

lemma match_many_NoneI:
  assumes "\<And>k. lo \<le> k \<Longrightarrow> k \<le> length (takeWhile (in_class c) s) \<Longrightarrow>
             match_at as (prev_at prev s k) (drop k s) = None"
  shows "match_at (Many c lo # as) prev s = None"
proof -
  have "\<forall>x \<in> set (map (\<lambda>k. map_option (\<lambda>n. k + n)
      (match_at as (prev_at prev s k) (drop k s))) (rev [lo ..< Suc (length (takeWhile (in_class c) s))])). x = None"
    using assms by auto
  then show ?thesis by (simp only: match_at.simps first_some_None_iff)
qed

lemma match_many_max:
  assumes "lo \<le> n" and "n = length (takeWhile (in_class c) s)"
    and "match_at as (prev_at prev s n) (drop n s) = Some j"
  shows "match_at (Many c lo # as) prev s = Some (n + j)"
proof -
  from assms(1) have "rev [lo ..< Suc n] = n # rev [lo ..< n]" by simp
  with assms(2,3) show ?thesis by simp
qed

lemma match_boundary:
  "match_at (WordBoundary # as) prev s = Some m \<longleftrightarrow> is_boundary prev s \<and> match_at as prev s = Some m"
  by simp

lemma match_one:
  "match_at (One c # as) prev s = Some m \<longleftrightarrow>
   (\<exists>x xs j. s = x # xs \<and> in_class c x \<and> match_at as (Some x) xs = Some j \<and> m = Suc j)"
  by (cases s) auto

subsubsection \<open>Character classes\<close>

lemma digit_word: "is_digit c \<Longrightarrow> is_word c"
  by (auto simp: is_digit_def is_word_def Let_def)

lemma upper_word: "is_upper c \<Longrightarrow> is_word c"
  by (auto simp: is_upper_def is_word_def Let_def)

lemma digit_not_upper: "is_digit c \<Longrightarrow> \<not> is_upper c"
  by (auto simp: is_digit_def is_upper_def Let_def)

lemma space_not_word: "is_space c \<Longrightarrow> \<not> is_word c"
  by (auto simp: is_space_def is_word_def Let_def)

lemma comma_not_word: "\<not> is_word CHR '',''"
  by (simp add: is_word_def code_def Let_def)

lemma comma_not_space: "\<not> is_space CHR '',''"
  by (simp add: is_space_def code_def Let_def)

lemma blank_space: "is_space CHR '' ''"
  by (simp add: is_space_def code_def Let_def)

subsubsection \<open>Word runs\<close>

lemma hd_nonword_simps [simp]:
  "hd_nonword []" "hd_nonword (x # xs) = (\<not> is_word x)"
  by (simp_all add: hd_nonword_def)

lemma word_runs_nonword [simp]: "\<not> is_word x \<Longrightarrow> word_runs (x # s) = word_runs s"
  by (simp add: word_runs.simps(2))

lemma takeWhile_all: "\<forall>x \<in> set w. P x \<Longrightarrow> takeWhile P (w @ s) = w @ takeWhile P s"
  by (induction w) simp_all

lemma dropWhile_all: "\<forall>x \<in> set w. P x \<Longrightarrow> dropWhile P (w @ s) = dropWhile P s"
  by (induction w) simp_all

lemma takeWhile_hd_nonword: "hd_nonword s \<Longrightarrow> takeWhile is_word s = []"
  by (cases s) simp_all

lemma dropWhile_hd_nonword: "hd_nonword s \<Longrightarrow> dropWhile is_word s = s"
  by (cases s) simp_all

lemma word_runs_word_prefix:
  assumes "w \<noteq> []" and "\<forall>x \<in> set w. is_word x" and "hd_nonword s"
  shows "word_runs (w @ s) = w # word_runs s"
proof -
  from assms(1) obtain x xs where w: "w = x # xs" by (cases w) auto
  with assms(2) have x: "is_word x" and xs: "\<forall>y \<in> set xs. is_word y" by auto
  have "takeWhile is_word (xs @ s) = xs" "dropWhile is_word (xs @ s) = s"
    using xs assms(3)
    by (simp_all add: takeWhile_all dropWhile_all takeWhile_hd_nonword dropWhile_hd_nonword)
  with x w show ?thesis by (simp add: word_runs.simps(2))
qed

lemma word_runs_all_word:
  assumes "w \<noteq> []" and "\<forall>x \<in> set w. is_word x"
  shows "word_runs w = [w]"
  using word_runs_word_prefix[OF assms, of "[]"] by simp

lemma word_runs_all_nonword: "\<forall>x \<in> set m. \<not> is_word x \<Longrightarrow> word_runs m = []"
  by (induction m) simp_all

lemma hd_nonword_dropWhile: "hd_nonword (dropWhile is_word s)"
  by (induction s) simp_all

lemma word_runs_split_run:
  assumes "is_word x"
  shows "word_runs (x # xs) = takeWhile is_word (x # xs) # word_runs (dropWhile is_word (x # xs))"
  using assms by (simp add: word_runs.simps(2))

lemma word_runs_append:
  assumes "a = [] \<or> \<not> is_word (last a) \<or> hd_nonword b"
  shows "word_runs (a @ b) = word_runs a @ word_runs b"
  using assms
proof (induction a rule: word_runs.induct)
  case 1
  show ?case by simp
next
  case (2 x xs)
  show ?case
  proof (cases "is_word x")
    case False
    from "2.prems" have "xs = [] \<or> \<not> is_word (last xs) \<or> hd_nonword b"
      by (cases "xs = []") auto
    with False "2.IH"(2) show ?thesis by simp
  next
    case True
    let ?w = "x # takeWhile is_word xs"
    let ?r = "dropWhile is_word xs"
    have split: "x # xs = ?w @ ?r" by simp
    have allw: "\<forall>y \<in> set ?w. is_word y" using True by (auto dest: set_takeWhileD)
    show ?thesis
    proof (cases "?r = []")
      case True
      then have "takeWhile is_word xs = xs"
        by (metis takeWhile_dropWhile_id append_Nil2)
      then have a: "x # xs = ?w" by metis
      with allw have "is_word (last (x # xs))"
        by (metis last_in_set list.discI)
      with "2.prems" have b: "hd_nonword b" by auto
      from word_runs_word_prefix[OF _ allw b] have "word_runs (?w @ b) = ?w # word_runs b" by simp
      moreover from word_runs_all_word[OF _ allw] have "word_runs ?w = [?w]" by simp
      ultimately show ?thesis using a by (metis append_Cons append_Nil)
    next
      case False
      then have last: "last (x # xs) = last ?r"
        by (metis split last_appendR)
      with "2.prems" False have c: "?r = [] \<or> \<not> is_word (last ?r) \<or> hd_nonword b" by auto
      from "2.IH"(1)[OF \<open>is_word x\<close> c] have ih: "word_runs (?r @ b) = word_runs ?r @ word_runs b" .
      have hr: "hd_nonword (?r @ b)" using False hd_nonword_dropWhile[of xs]
        by (cases ?r) auto
      have "word_runs ((x # xs) @ b) = word_runs (?w @ (?r @ b))"
        using split by (metis append_assoc)
      also have "\<dots> = ?w # word_runs (?r @ b)"
        by (rule word_runs_word_prefix[OF _ allw hr]) simp
      also have "\<dots> = word_runs (x # xs) @ word_runs b"
        using ih \<open>is_word x\<close> by (simp add: word_runs.simps(2))
      finally show ?thesis .
    qed
  qed
qed

lemma takeWhile_word_run:
  assumes "\<forall>x \<in> set (take m s). is_word x" and "hd_nonword (drop m s)"
  shows "takeWhile is_word s = take m s"
proof -
  have "takeWhile is_word (take m s @ drop m s) = take m s @ takeWhile is_word (drop m s)"
    using assms(1) by (intro takeWhile_all) auto
  with assms(2) show ?thesis by (simp add: takeWhile_hd_nonword)
qed

lemma dropWhile_word_run:
  assumes "\<forall>x \<in> set (take m s). is_word x" and "hd_nonword (drop m s)"
  shows "dropWhile is_word s = drop m s"
proof -
  have "dropWhile is_word (take m s @ drop m s) = dropWhile is_word (drop m s)"
    using assms(1) by (intro dropWhile_all) auto
  with assms(2) show ?thesis by (simp add: dropWhile_hd_nonword)
qed

subsubsection \<open>Substitution of patterns that match from the start of a word run\<close>

lemma sub_Nil: "word_pattern p \<Longrightarrow> re_sub_from p r prev [] = []"
  by (subst re_sub_from.simps) (simp add: word_pattern_def)

lemma sub_nonword:
  "word_pattern p \<Longrightarrow> \<not> is_word x \<Longrightarrow>
   re_sub_from p r prev (x # xs) = x # re_sub_from p r (Some x) xs"
  by (subst re_sub_from.simps) (simp add: word_pattern_def)

lemma sub_Some:
  assumes "word_pattern p" and "match_at p prev s = Some n"
  shows "re_sub_from p r prev s = r @ re_sub_from p r (Some (s ! (n - 1))) (drop n s)"
proof -
  from assms have "0 < n" unfolding word_pattern_def by blast
  with assms(2) show ?thesis by (subst re_sub_from.simps) simp
qed

lemma sub_None:
  "match_at p prev (x # xs) = None \<Longrightarrow>
   re_sub_from p r prev (x # xs) = x # re_sub_from p r (Some x) xs"
  by (subst re_sub_from.simps) simp

lemma sub_prev_indep:
  assumes "word_pattern p" and "hd_nonword s"
  shows "re_sub_from p r prev s = re_sub_from p r prev' s"
proof (cases s)
  case Nil
  with assms show ?thesis by (simp add: sub_Nil)
next
  case (Cons x xs)
  with assms show ?thesis by (simp add: sub_nonword)
qed

lemma sub_in_run:
  assumes "word_pattern p"
  shows "word_opt prev \<Longrightarrow>
         re_sub_from p r prev s = takeWhile is_word s @ re_sub_from p r None (dropWhile is_word s)"
proof (induction s arbitrary: prev)
  case Nil
  show ?case using assms by (simp add: sub_Nil)
next
  case (Cons x xs)
  show ?case
  proof (cases "is_word x")
    case True
    with Cons.prems have "\<not> start_ok prev (x # xs)" by (simp add: start_ok_def)
    with assms have "match_at p prev (x # xs) = None" by (simp add: word_pattern_def)
    then have "re_sub_from p r prev (x # xs) = x # re_sub_from p r (Some x) xs"
      by (rule sub_None)
    moreover from True have "word_opt (Some x)" by (simp add: word_opt_def)
    ultimately show ?thesis using Cons.IH[of "Some x"] True by simp
  next
    case False
    then show ?thesis using sub_prev_indep[OF assms, of "x # xs" r prev None] by simp
  qed
qed

lemma sub_run_None:
  assumes "word_pattern p" and "is_word x" and "match_at p prev (x # xs) = None"
  shows "re_sub_from p r prev (x # xs) =
         takeWhile is_word (x # xs) @ re_sub_from p r None (dropWhile is_word (x # xs))"
proof -
  from assms(2) have "word_opt (Some x)" by (simp add: word_opt_def)
  from sub_in_run[OF assms(1) this, of r xs] sub_None[OF assms(3), of r] assms(2)
  show ?thesis by simp
qed

lemma last_take_nth:
  assumes "0 < n" and "n \<le> length s"
  shows "last (take n s) = s ! (n - 1)"
proof -
  from assms have "take n s \<noteq> []" by auto
  then have "last (take n s) = take n s ! (length (take n s) - 1)" by (rule last_conv_nth)
  also from assms have "length (take n s) = n" by simp
  also from assms have "take n s ! (n - 1) = s ! (n - 1)" by simp
  finally show ?thesis .
qed

lemma drop_subset_runs:
  assumes "0 < n" and "n \<le> length s" and "start_ok (Some (s ! (n - 1))) (drop n s)"
  shows "word_runs s = word_runs (take n s) @ word_runs (drop n s)"
proof -
  from assms(1,2) have "take n s \<noteq> []" by auto
  moreover have "last (take n s) = s ! (n - 1)"
    using assms(1,2) by (rule last_take_nth)
  ultimately have "take n s = [] \<or> \<not> is_word (last (take n s)) \<or> hd_nonword (drop n s)"
    using assms(3) by (simp add: start_ok_def word_opt_def)
  from word_runs_append[OF this] show ?thesis by simp
qed

lemma sub_runs:
  assumes wp: "word_pattern p"
    and rb: "r = [] \<or> (\<forall>prev s n. match_at p prev s = Some n \<longrightarrow> hd_nonword (drop n s))"
    and comp: "\<And>prev x xs. \<not> word_opt prev \<Longrightarrow> is_word x \<Longrightarrow>
                 sh (takeWhile is_word (x # xs)) \<Longrightarrow> match_at p prev (x # xs) \<noteq> None"
  shows "start_ok prev s \<Longrightarrow>
         set (word_runs (re_sub_from p r prev s)) \<subseteq> {w \<in> set (word_runs s). \<not> sh w} \<union> set (word_runs r) \<and>
         (hd_nonword s \<longrightarrow> hd_nonword (re_sub_from p r prev s))"
proof (induction "length s" arbitrary: s prev rule: less_induct)
  case less
  show ?case
  proof (cases s)
    case Nil
    with wp show ?thesis by (simp add: sub_Nil)
  next
    case (Cons x xs)
    show ?thesis
    proof (cases "is_word x")
      case False
      have "start_ok (Some x) xs" using False by (simp add: start_ok_def word_opt_def)
      from less.hyps[OF _ this] Cons
      have "set (word_runs (re_sub_from p r (Some x) xs)) \<subseteq> {w \<in> set (word_runs xs). \<not> sh w} \<union> set (word_runs r)"
        by simp
      with False Cons wp show ?thesis by (simp add: sub_nonword)
    next
      case True
      with less.prems Cons have np: "\<not> word_opt prev" by (simp add: start_ok_def)
      let ?w = "takeWhile is_word s"
      let ?rest = "dropWhile is_word s"
      show ?thesis
      proof (cases "match_at p prev s")
        case None
        with True Cons wp have out: "re_sub_from p r prev s = ?w @ re_sub_from p r None ?rest"
          using sub_run_None by simp
        have len: "length ?rest < length s" using True Cons
          by (simp add: less_Suc_eq_le length_dropWhile_le)
        have "start_ok None ?rest" by (simp add: start_ok_def word_opt_def)
        from less.hyps[OF len this] hd_nonword_dropWhile[of s]
        have ih: "set (word_runs (re_sub_from p r None ?rest)) \<subseteq> {w \<in> set (word_runs ?rest). \<not> sh w} \<union> set (word_runs r)"
          and hn: "hd_nonword (re_sub_from p r None ?rest)" by simp_all
        have w: "?w \<noteq> []" "\<forall>y \<in> set ?w. is_word y" using True Cons by (auto dest: set_takeWhileD)
        have nsh: "\<not> sh ?w" using comp[OF np True, of xs] None Cons by auto
        have "word_runs (re_sub_from p r prev s) = ?w # word_runs (re_sub_from p r None ?rest)"
          unfolding out by (rule word_runs_word_prefix[OF w hn])
        moreover have "word_runs s = ?w # word_runs ?rest"
          using word_runs_split_run[OF True, of xs] Cons by simp
        ultimately show ?thesis using ih nsh True Cons by auto
      next
        case (Some n)
        with wp have "0 < n \<and> start_ok (Some (s ! (n - 1))) (drop n s)"
          unfolding word_pattern_def by blast
        then have n: "0 < n" and so: "start_ok (Some (s ! (n - 1))) (drop n s)" by simp_all
        from Some have nl: "n \<le> length s" by (rule match_at_length)
        from sub_Some[OF wp Some] have out: "re_sub_from p r prev s = r @ re_sub_from p r (Some (s ! (n - 1))) (drop n s)" .
        have len: "length (drop n s) < length s" using n nl Cons by simp
        from less.hyps[OF len so]
        have ih: "set (word_runs (re_sub_from p r (Some (s ! (n - 1))) (drop n s)))
                  \<subseteq> {w \<in> set (word_runs (drop n s)). \<not> sh w} \<union> set (word_runs r)"
          and hn: "hd_nonword (drop n s) \<longrightarrow> hd_nonword (re_sub_from p r (Some (s ! (n - 1))) (drop n s))"
          by simp_all
        have "r = [] \<or> hd_nonword (re_sub_from p r (Some (s ! (n - 1))) (drop n s))"
          using rb Some hn by blast
        then have "word_runs (re_sub_from p r prev s)
                   = word_runs r @ word_runs (re_sub_from p r (Some (s ! (n - 1))) (drop n s))"
          unfolding out by (intro word_runs_append) auto
        moreover have "set (word_runs (drop n s)) \<subseteq> set (word_runs s)"
          using drop_subset_runs[OF n nl so] by simp
        ultimately show ?thesis using ih True Cons by auto
      qed
    qed
  qed
qed

lemma sub_identity:
  assumes wp: "word_pattern p"
    and sound: "\<And>prev x xs n. match_at p prev (x # xs) = Some n \<Longrightarrow> bad (takeWhile is_word (x # xs))"
  shows "start_ok prev s \<Longrightarrow> \<forall>w \<in> set (word_runs s). \<not> bad w \<Longrightarrow> re_sub_from p r prev s = s"
proof (induction "length s" arbitrary: s prev rule: less_induct)
  case less
  show ?case
  proof (cases s)
    case Nil
    with wp show ?thesis by (simp add: sub_Nil)
  next
    case (Cons x xs)
    show ?thesis
    proof (cases "is_word x")
      case False
      have "start_ok (Some x) xs" using False by (simp add: start_ok_def word_opt_def)
      moreover have "\<forall>w \<in> set (word_runs xs). \<not> bad w" using less.prems(2) Cons False by simp
      ultimately have "re_sub_from p r (Some x) xs = xs" using less.hyps Cons by simp
      with False Cons wp show ?thesis by (simp add: sub_nonword)
    next
      case True
      have runs: "word_runs s = takeWhile is_word s # word_runs (dropWhile is_word s)"
        using word_runs_split_run[OF True, of xs] Cons by simp
      with less.prems(2) have nb: "\<not> bad (takeWhile is_word s)"
        and rest: "\<forall>w \<in> set (word_runs (dropWhile is_word s)). \<not> bad w" by simp_all
      have "match_at p prev s = None"
      proof (cases "match_at p prev s")
        case None then show ?thesis .
      next
        case (Some n)
        with sound[of prev x xs n] Cons nb show ?thesis by simp
      qed
      with True Cons wp have out: "re_sub_from p r prev s
          = takeWhile is_word s @ re_sub_from p r None (dropWhile is_word s)"
        using sub_run_None by simp
      have len: "length (dropWhile is_word s) < length s" using True Cons
        by (simp add: less_Suc_eq_le length_dropWhile_le)
      have "start_ok None (dropWhile is_word s)" by (simp add: start_ok_def word_opt_def)
      from less.hyps[OF len this rest] out show ?thesis by simp
    qed
  qed
qed

subsubsection \<open>What the five word patterns match\<close>

lemma many_take:
  assumes "match_at (Many c lo # as) prev s = Some m"
  obtains k j where "lo \<le> k" and "k \<le> length s" and "\<forall>x \<in> set (take k s). in_class c x"
    and "match_at as (prev_at prev s k) (drop k s) = Some j" and "m = k + j"
proof -
  from assms obtain k j where k: "lo \<le> k" "k \<le> length (takeWhile (in_class c) s)"
    and j: "match_at as (prev_at prev s k) (drop k s) = Some j" "m = k + j"
    by (rule match_many_SomeD)
  have "take k s = take k (takeWhile (in_class c) s)"
    using k(2) by (metis takeWhile_dropWhile_id take_append diff_is_0_eq take_0 append_Nil2)
  then have "set (take k s) \<subseteq> set (takeWhile (in_class c) s)"
    by (metis set_take_subset)
  then have "\<forall>x \<in> set (take k s). in_class c x"
    by (auto dest: set_takeWhileD)
  moreover from k(2) have "k \<le> length s"
    using length_takeWhile_le[of "in_class c" s] by linarith
  ultimately show thesis using that k(1) j by blast
qed

lemma final_boundary: "match_at [WordBoundary] prev s = Some j \<Longrightarrow> j = 0 \<and> is_boundary prev s"
  by (simp split: if_splits)

lemma boundary_after_word: "is_word c \<Longrightarrow> is_boundary (Some c) s = hd_nonword s"
  by (cases s) (simp_all add: is_boundary_def word_opt_def next_char_def)

lemma boundary_before_word: "is_word x \<Longrightarrow> is_boundary prev (x # xs) = (\<not> word_opt prev)"
  by (simp add: is_boundary_def word_opt_def next_char_def)

lemma boundary_hd_nonword: "hd_nonword s \<Longrightarrow> is_boundary prev s = word_opt prev"
  by (cases s) (simp_all add: is_boundary_def word_opt_def next_char_def)

lemma prev_at_pos: "0 < k \<Longrightarrow> prev_at prev s k = Some (s ! (k - 1))"
  by (simp add: prev_at_def)

lemma nth_in_take: "0 < k \<Longrightarrow> k \<le> length s \<Longrightarrow> s ! (k - 1) \<in> set (take k s)"
  by (metis last_take_nth last_in_set take_eq_Nil not_less0 list.size(3) le_zero_eq less_numeral_extra(3))

lemma hd_in_take: "0 < k \<Longrightarrow> s = x # xs \<Longrightarrow> x \<in> set (take k s)"
  by (cases k) simp_all

lemma word_patternI:
  assumes "\<And>prev s m. match_at p prev s = Some m \<Longrightarrow>
             \<not> word_opt prev \<and> 0 < m \<and> \<not> hd_nonword s \<and> start_ok (Some (s ! (m - 1))) (drop m s)"
  shows "word_pattern p"
  unfolding word_pattern_def
proof (intro conjI allI impI)
  fix prev s
  assume "\<not> start_ok prev s"
  then have "word_opt prev" by (simp add: start_ok_def)
  with assms[of prev s] show "match_at p prev s = None"
    by (cases "match_at p prev s") auto
next
  fix prev s
  assume "hd_nonword s"
  with assms[of prev s] show "match_at p prev s = None"
    by (cases "match_at p prev s") auto
next
  fix prev s n
  assume "match_at p prev s = Some n"
  with assms[of prev s n] show "0 < n" "start_ok (Some (s ! (n - 1))) (drop n s)" by simp_all
qed

text \<open>Integers.\<close>

lemma integer_match:
  assumes "match_at pat_integer prev s = Some m"
  shows "\<not> word_opt prev \<and> 0 < m \<and> m \<le> length s \<and> (\<forall>x \<in> set (take m s). is_digit x) \<and>
         hd_nonword (drop m s)"
proof -
  from assms have b: "is_boundary prev s"
    and r: "match_at [Many CDigit 1, WordBoundary] prev s = Some m"
    by (simp_all add: pat_integer_def split: if_splits)
  from r obtain k j where k: "1 \<le> k" "k \<le> length s" "\<forall>x \<in> set (take k s). in_class CDigit x"
    and j: "match_at [WordBoundary] (prev_at prev s k) (drop k s) = Some j" and m: "m = k + j"
    by (rule many_take)
  from k have pos: "0 < k" by simp
  from final_boundary[OF j] have j0: "j = 0" and fb: "is_boundary (prev_at prev s k) (drop k s)" by simp_all
  from nth_in_take[OF pos k(2)] k(3) have "is_digit (s ! (k - 1))" by simp
  then have "is_word (s ! (k - 1))" by (rule digit_word)
  with fb pos have hn: "hd_nonword (drop k s)" by (simp add: prev_at_pos boundary_after_word)
  from pos k(2) obtain x xs where s: "s = x # xs" by (cases s) auto
  from hd_in_take[OF pos s] k(3) have "is_word x" by (simp add: digit_word)
  with b s have "\<not> word_opt prev" by (simp add: boundary_before_word)
  with pos k hn m j0 show ?thesis by simp
qed

lemma integer_pattern: "word_pattern pat_integer"
proof (rule word_patternI)
  fix prev s m
  assume "match_at pat_integer prev s = Some m"
  from integer_match[OF this]
  have a: "\<not> word_opt prev" "0 < m" "m \<le> length s" "\<forall>x \<in> set (take m s). is_digit x" "hd_nonword (drop m s)"
    by simp_all
  from a(2,3) obtain x xs where s: "s = x # xs" by (cases s) auto
  from hd_in_take[OF a(2) s] a(4) have "is_word x" by (simp add: digit_word)
  with s a show "\<not> word_opt prev \<and> 0 < m \<and> \<not> hd_nonword s \<and> start_ok (Some (s ! (m - 1))) (drop m s)"
    by (simp add: start_ok_def)
qed

lemma integer_sound:
  assumes "match_at pat_integer prev s = Some m"
  shows "all_digits (takeWhile is_word s)"
proof -
  from integer_match[OF assms]
  have a: "0 < m" "m \<le> length s" "\<forall>x \<in> set (take m s). is_digit x" "hd_nonword (drop m s)"
    by simp_all
  from a(3) have "\<forall>x \<in> set (take m s). is_word x" by (simp add: digit_word)
  from takeWhile_word_run[OF this a(4)] have "takeWhile is_word s = take m s" .
  moreover from a(1,2) have "take m s \<noteq> []" by auto
  ultimately show ?thesis using a(3) by (simp add: all_digits_def)
qed

lemma takeWhile_prefix_class:
  assumes "\<forall>x \<in> set w. P x" and "s = [] \<or> \<not> P (hd s)"
  shows "takeWhile P (w @ s) = w"
proof -
  from assms(2) have "takeWhile P s = []" by (cases s) auto
  moreover have "takeWhile P (w @ s) = w @ takeWhile P s"
    using assms(1) by simp
  ultimately show ?thesis by simp
qed

lemma prev_at_seg: "prev_at prev (w @ r) (length w) = prev_seg prev w"
proof (cases "w = []")
  case True
  then show ?thesis by (simp add: prev_at_def prev_seg_def)
next
  case False
  then have "(w @ r) ! (length w - 1) = last w"
    by (simp add: nth_append last_conv_nth)
  with False show ?thesis by (simp add: prev_at_def prev_seg_def)
qed

lemma many_seg:
  assumes "\<forall>y \<in> set w. in_class c y" and "r = [] \<or> \<not> in_class c (hd r)" and "lo \<le> length w"
    and "match_at as (prev_seg prev w) r = Some j"
  shows "match_at (Many c lo # as) prev (w @ r) = Some (length w + j)"
proof (rule match_many_max[OF assms(3)])
  from assms(1,2) have "takeWhile (in_class c) (w @ r) = w" by (rule takeWhile_prefix_class)
  then show "length w = length (takeWhile (in_class c) (w @ r))" by simp
  from assms(4) show "match_at as (prev_at prev (w @ r) (length w)) (drop (length w) (w @ r)) = Some j"
    by (simp add: prev_at_seg)
qed

lemma one_seg:
  "in_class c x \<Longrightarrow> match_at as (Some x) r = Some j \<Longrightarrow> match_at (One c # as) prev (x # r) = Some (Suc j)"
  by simp

lemma wb_end: "is_boundary prev r \<Longrightarrow> match_at [WordBoundary] prev r = Some 0"
  by simp

lemma wb_start:
  "is_boundary prev s \<Longrightarrow> match_at as prev s = Some j \<Longrightarrow> match_at (WordBoundary # as) prev s = Some j"
  by simp

lemma run_split:
  assumes "is_word x"
  obtains w r where "x # xs = w @ r" and "w = takeWhile is_word (x # xs)" and "w \<noteq> []"
    and "hd_nonword r"
proof
  show "x # xs = takeWhile is_word (x # xs) @ dropWhile is_word (x # xs)" by simp
  show "takeWhile is_word (x # xs) = takeWhile is_word (x # xs)" by simp
  show "takeWhile is_word (x # xs) \<noteq> []" using assms by simp
  show "hd_nonword (dropWhile is_word (x # xs))" by (rule hd_nonword_dropWhile)
qed

lemma hd_nonword_not_digit: "hd_nonword r \<Longrightarrow> r = [] \<or> \<not> is_digit (hd r)"
  by (cases r) (auto dest: digit_word)

lemma hd_nonword_not_upper: "hd_nonword r \<Longrightarrow> r = [] \<or> \<not> is_upper (hd r)"
  by (cases r) (auto dest: upper_word)

lemma start_boundary: "\<not> word_opt prev \<Longrightarrow> w \<noteq> [] \<Longrightarrow> is_word (hd w) \<Longrightarrow> is_boundary prev (w @ r)"
  by (cases w) (simp_all add: boundary_before_word)

lemma end_boundary: "w \<noteq> [] \<Longrightarrow> is_word (last w) \<Longrightarrow> hd_nonword r \<Longrightarrow> is_boundary (prev_seg prev w) r"
  by (simp add: prev_seg_def boundary_after_word)

lemma integer_complete:
  assumes "\<not> word_opt prev" and "is_word x" and "all_digits (takeWhile is_word (x # xs))"
  shows "match_at pat_integer prev (x # xs) \<noteq> None"
proof -
  from run_split[OF assms(2), of xs] obtain w r where s: "x # xs = w @ r"
    and w: "w = takeWhile is_word (x # xs)" and ne: "w \<noteq> []" and hn: "hd_nonword r" by blast
  from assms(3) have d: "\<forall>y \<in> set w. is_digit y" unfolding w all_digits_def by blast
  from d ne have lw: "is_word (last w)" "is_word (hd w)" by (auto dest: digit_word)
  have "match_at [WordBoundary] (prev_seg prev w) r = Some 0"
    using end_boundary[OF ne lw(1) hn] by (rule wb_end)
  then have "match_at [Many CDigit 1, WordBoundary] prev (w @ r) = Some (length w + 0)"
    using d ne hd_nonword_not_digit[OF hn] by (intro many_seg) (auto simp: Suc_le_eq)
  then have "match_at pat_integer prev (w @ r) = Some (length w + 0)"
    unfolding pat_integer_def using start_boundary[OF assms(1) ne lw(2)] by (intro wb_start)
  with s show ?thesis by simp
qed

lemma many_split:
  assumes "match_at (Many c lo # as) prev s = Some m"
  obtains w r j where "s = w @ r" and "lo \<le> length w" and "\<forall>x \<in> set w. in_class c x"
    and "match_at as (prev_seg prev w) r = Some j" and "m = length w + j"
proof -
  from assms obtain k j where k: "lo \<le> k" "k \<le> length s" "\<forall>x \<in> set (take k s). in_class c x"
    and j: "match_at as (prev_at prev s k) (drop k s) = Some j" and m: "m = k + j"
    by (rule many_take)
  have s: "s = take k s @ drop k s" by simp
  from k(2) have l: "length (take k s) = k" by simp
  have "prev_at prev (take k s @ drop k s) (length (take k s)) = prev_seg prev (take k s)"
    by (rule prev_at_seg)
  then have "prev_at prev s k = prev_seg prev (take k s)" using k(2) by (simp add: min_absorb2)
  with j have "match_at as (prev_seg prev (take k s)) (drop k s) = Some j" by simp
  with s k l m show thesis using that[of "take k s" "drop k s" j] by simp
qed

lemma one_split:
  assumes "match_at (One c # as) prev s = Some m"
  obtains x xs j where "s = x # xs" and "in_class c x" and "match_at as (Some x) xs = Some j"
    and "m = Suc j"
  using assms by (cases s) (auto split: if_splits)

lemma dot_not_word: "\<not> is_word CHR ''.''"
  by (simp add: is_word_def code_def Let_def)

lemma percent_not_word: "\<not> is_word CHR ''%''"
  by (simp add: is_word_def code_def Let_def)

lemma dBm_word: "is_word CHR ''d''" "is_word CHR ''B''" "is_word CHR ''m''"
  by (simp_all add: is_word_def code_def Let_def)

lemma d_not_digit: "\<not> is_digit CHR ''d''"
  by (simp add: is_digit_def code_def Let_def)

lemma seg_word_prev: "w \<noteq> [] \<Longrightarrow> \<forall>x \<in> set w. is_word x \<Longrightarrow> prev_seg prev w = Some (last w) \<and> is_word (last w)"
  by (simp add: prev_seg_def)

lemma start_not_word_prev:
  assumes "is_boundary prev (w @ r)" and "w \<noteq> []" and "\<forall>x \<in> set w. is_word x"
  shows "\<not> word_opt prev"
  using assms by (cases w) (simp_all add: boundary_before_word)

lemma digits_run:
  assumes "w \<noteq> []" and "\<forall>x \<in> set w. is_digit x" and "hd_nonword r"
  shows "takeWhile is_word (w @ r) = w" and "all_digits (takeWhile is_word (w @ r))"
proof -
  from assms(2) have "\<forall>x \<in> set w. is_word x" by (auto dest: digit_word)
  moreover from assms(3) have "r = [] \<or> \<not> is_word (hd r)" by (cases r) auto
  ultimately show tw: "takeWhile is_word (w @ r) = w" by (rule takeWhile_prefix_class)
  from assms(1,2) show "all_digits (takeWhile is_word (w @ r))"
    unfolding tw all_digits_def by blast
qed

text \<open>Decimal numbers.\<close>

lemma decimal_match:
  assumes "match_at pat_decimal prev s = Some m"
  shows "\<not> word_opt prev \<and> 0 < m \<and> \<not> hd_nonword s \<and> hd_nonword (drop m s) \<and>
         all_digits (takeWhile is_word s)"
proof -
  from assms have b: "is_boundary prev s"
    and r: "match_at [Many CDigit 1, One (CChar CHR ''.''), Many CDigit 1, WordBoundary] prev s = Some m"
    by (simp_all add: pat_decimal_def split: if_splits)
  from r obtain w r1 j1 where s: "s = w @ r1" and w: "1 \<le> length w" "\<forall>x \<in> set w. in_class CDigit x"
    and m1: "match_at [One (CChar CHR ''.''), Many CDigit 1, WordBoundary] (prev_seg prev w) r1 = Some j1"
    and m: "m = length w + j1" by (rule many_split)
  from m1 obtain x r2 j2 where r1: "r1 = x # r2" and x: "in_class (CChar CHR ''.'') x"
    and m2: "match_at [Many CDigit 1, WordBoundary] (Some x) r2 = Some j2" and j1: "j1 = Suc j2"
    by (rule one_split)
  from m2 obtain v r3 j3 where r2: "r2 = v @ r3" and v: "1 \<le> length v" "\<forall>x \<in> set v. in_class CDigit x"
    and m3: "match_at [WordBoundary] (prev_seg (Some x) v) r3 = Some j3" and j2: "j2 = length v + j3"
    by (rule many_split)
  from w have wne: "w \<noteq> []" and wd: "\<forall>x \<in> set w. is_digit x" by auto
  from v have vne: "v \<noteq> []" and vd: "\<forall>x \<in> set v. is_digit x" by auto
  from final_boundary[OF m3] have j3: "j3 = 0" and fb: "is_boundary (prev_seg (Some x) v) r3" by simp_all
  from vd have "\<forall>x \<in> set v. is_word x" by (auto dest: digit_word)
  from seg_word_prev[OF vne this] fb have hn3: "hd_nonword r3" by (simp add: boundary_after_word)
  from x have xdot: "x = CHR ''.''" by simp
  then have hn1: "hd_nonword r1" using r1 by (simp add: dot_not_word)
  have "drop m s = r3" using s r1 r2 m j1 j2 j3 by simp
  moreover from wd have ww: "\<forall>x \<in> set w. is_word x" by (auto dest: digit_word)
  moreover from start_not_word_prev[OF _ wne ww] b s have "\<not> word_opt prev" by simp
  moreover have "\<not> hd_nonword s" using s wne ww by (cases w) simp_all
  moreover have "all_digits (takeWhile is_word s)" unfolding s by (rule digits_run(2)[OF wne wd hn1])
  ultimately show ?thesis using hn3 m wne by simp
qed

lemma decimal_pattern: "word_pattern pat_decimal"
proof (rule word_patternI)
  fix prev s m
  assume "match_at pat_decimal prev s = Some m"
  from decimal_match[OF this]
  show "\<not> word_opt prev \<and> 0 < m \<and> \<not> hd_nonword s \<and> start_ok (Some (s ! (m - 1))) (drop m s)"
    by (simp add: start_ok_def)
qed

text \<open>Percentages.\<close>

lemma percent_match:
  assumes "match_at pat_percent prev s = Some m"
  shows "\<not> word_opt prev \<and> 0 < m \<and> \<not> hd_nonword s \<and> \<not> is_word (s ! (m - 1)) \<and>
         all_digits (takeWhile is_word s)"
proof -
  from assms have b: "is_boundary prev s"
    and r: "match_at [Many CDigit 1, One (CChar CHR ''%''), WordBoundary] prev s = Some m"
    by (simp_all add: pat_percent_def split: if_splits)
  from r obtain w r1 j1 where s: "s = w @ r1" and w: "1 \<le> length w" "\<forall>x \<in> set w. in_class CDigit x"
    and m1: "match_at [One (CChar CHR ''%''), WordBoundary] (prev_seg prev w) r1 = Some j1"
    and m: "m = length w + j1" by (rule many_split)
  from m1 obtain x r2 j2 where r1: "r1 = x # r2" and x: "in_class (CChar CHR ''%'') x"
    and m2: "match_at [WordBoundary] (Some x) r2 = Some j2" and j1: "j1 = Suc j2"
    by (rule one_split)
  from final_boundary[OF m2] have j2: "j2 = 0" by simp
  from w have wne: "w \<noteq> []" and wd: "\<forall>x \<in> set w. is_digit x" by auto
  from wd have ww: "\<forall>x \<in> set w. is_word x" by (auto dest: digit_word)
  from x have xp: "x = CHR ''%''" by simp
  then have hn1: "hd_nonword r1" using r1 by (simp add: percent_not_word)
  have "s ! (m - 1) = x" using s r1 m j1 j2 by (simp add: nth_append)
  with xp have "\<not> is_word (s ! (m - 1))" by (simp add: percent_not_word)
  moreover from start_not_word_prev[OF _ wne ww] b s have "\<not> word_opt prev" by simp
  moreover have "\<not> hd_nonword s" using s wne ww by (cases w) simp_all
  moreover have "all_digits (takeWhile is_word s)" unfolding s by (rule digits_run(2)[OF wne wd hn1])
  ultimately show ?thesis using m j1 by simp
qed

lemma percent_pattern: "word_pattern pat_percent"
proof (rule word_patternI)
  fix prev s m
  assume "match_at pat_percent prev s = Some m"
  from percent_match[OF this]
  show "\<not> word_opt prev \<and> 0 < m \<and> \<not> hd_nonword s \<and> start_ok (Some (s ! (m - 1))) (drop m s)"
    by (simp add: start_ok_def word_opt_def)
qed

lemma many_digits:
  assumes "\<forall>y \<in> set w. is_digit y" and "r = [] \<or> \<not> is_digit (hd r)" and "lo \<le> length w"
    and "match_at as (prev_seg prev w) r = Some j"
  shows "match_at (Many CDigit lo # as) prev (w @ r) = Some (length w + j)"
proof (rule many_seg)
  show "\<forall>y \<in> set w. in_class CDigit y" using assms(1) by simp
  show "r = [] \<or> \<not> in_class CDigit (hd r)" using assms(2) by simp
  show "lo \<le> length w" by (rule assms(3))
  show "match_at as (prev_seg prev w) r = Some j" by (rule assms(4))
qed

lemma many_uppers:
  assumes "\<forall>y \<in> set w. is_upper y" and "r = [] \<or> \<not> is_upper (hd r)" and "lo \<le> length w"
    and "match_at as (prev_seg prev w) r = Some j"
  shows "match_at (Many CUpper lo # as) prev (w @ r) = Some (length w + j)"
proof (rule many_seg)
  show "\<forall>y \<in> set w. in_class CUpper y" using assms(1) by simp
  show "r = [] \<or> \<not> in_class CUpper (hd r)" using assms(2) by simp
  show "lo \<le> length w" by (rule assms(3))
  show "match_at as (prev_seg prev w) r = Some j" by (rule assms(4))
qed

lemma nonempty_length: "w \<noteq> [] \<Longrightarrow> 1 \<le> length w"
  by (cases w) simp_all

text \<open>Signal levels.\<close>

lemma dbm_match:
  assumes "match_at pat_dbm prev s = Some m"
  shows "\<not> word_opt prev \<and> 0 < m \<and> \<not> hd_nonword s \<and> hd_nonword (drop m s) \<and>
         dbm_level (takeWhile is_word s)"
proof -
  from assms have b: "is_boundary prev s"
    and r: "match_at [Many CDigit 1, One (CChar CHR ''d''), One (CChar CHR ''B''),
                      One (CChar CHR ''m''), WordBoundary] prev s = Some m"
    by (simp_all add: pat_dbm_def split: if_splits)
  from r obtain w r1 j1 where s: "s = w @ r1" and w: "1 \<le> length w" "\<forall>x \<in> set w. in_class CDigit x"
    and m1: "match_at [One (CChar CHR ''d''), One (CChar CHR ''B''), One (CChar CHR ''m''), WordBoundary]
               (prev_seg prev w) r1 = Some j1"
    and m: "m = length w + j1" by (rule many_split)
  from m1 obtain x1 r2 j2 where r1: "r1 = x1 # r2" and x1: "in_class (CChar CHR ''d'') x1"
    and m2: "match_at [One (CChar CHR ''B''), One (CChar CHR ''m''), WordBoundary] (Some x1) r2 = Some j2"
    and j1: "j1 = Suc j2" by (rule one_split)
  from m2 obtain x2 r3 j3 where r2: "r2 = x2 # r3" and x2: "in_class (CChar CHR ''B'') x2"
    and m3: "match_at [One (CChar CHR ''m''), WordBoundary] (Some x2) r3 = Some j3"
    and j2: "j2 = Suc j3" by (rule one_split)
  from m3 obtain x3 r4 j4 where r3: "r3 = x3 # r4" and x3: "in_class (CChar CHR ''m'') x3"
    and m4: "match_at [WordBoundary] (Some x3) r4 = Some j4"
    and j3: "j3 = Suc j4" by (rule one_split)
  from final_boundary[OF m4] have j4: "j4 = 0" and fb: "is_boundary (Some x3) r4" by simp_all
  from x1 x2 x3 have xs: "x1 = CHR ''d''" "x2 = CHR ''B''" "x3 = CHR ''m''" by simp_all
  from fb xs have hn4: "hd_nonword r4" by (simp add: boundary_after_word dBm_word)
  from w have wne: "w \<noteq> []" and wd: "\<forall>x \<in> set w. is_digit x" by auto
  from wd have ww: "\<forall>x \<in> set w. is_word x" by (auto dest: digit_word)
  have s': "s = (w @ ''dBm'') @ r4" using s r1 r2 r3 xs by simp
  have allw: "\<forall>x \<in> set (w @ ''dBm''). is_word x" using ww by (auto simp: dBm_word)
  have "r4 = [] \<or> \<not> is_word (hd r4)" using hn4 by (cases r4) auto
  with allw have tw: "takeWhile is_word ((w @ ''dBm'') @ r4) = w @ ''dBm''"
    by (rule takeWhile_prefix_class)
  have "dbm_level (takeWhile is_word s)"
    unfolding s' tw dbm_level_def using wne wd by blast
  moreover have "drop m s = r4" using s r1 r2 r3 m j1 j2 j3 j4 by simp
  moreover from start_not_word_prev[OF _ wne ww] b s have "\<not> word_opt prev" by simp
  moreover have "\<not> hd_nonword s" using s wne ww by (cases w) simp_all
  ultimately show ?thesis using hn4 m wne by simp
qed

lemma dbm_pattern: "word_pattern pat_dbm"
proof (rule word_patternI)
  fix prev s m
  assume "match_at pat_dbm prev s = Some m"
  from dbm_match[OF this]
  show "\<not> word_opt prev \<and> 0 < m \<and> \<not> hd_nonword s \<and> start_ok (Some (s ! (m - 1))) (drop m s)"
    by (simp add: start_ok_def)
qed

lemma dbm_complete:
  assumes "\<not> word_opt prev" and "is_word x" and "dbm_level (takeWhile is_word (x # xs))"
  shows "match_at pat_dbm prev (x # xs) \<noteq> None"
proof -
  from run_split[OF assms(2), of xs] obtain w r where s: "x # xs = w @ r"
    and w: "w = takeWhile is_word (x # xs)" and ne: "w \<noteq> []" and hn: "hd_nonword r" by blast
  from assms(3) obtain b where wb: "w = b @ ''dBm''" and bne: "b \<noteq> []" and bd: "\<forall>y \<in> set b. is_digit y"
    unfolding w[symmetric] dbm_level_def by blast
  have "match_at [WordBoundary] (Some CHR ''m'') r = Some 0"
    using hn by (intro wb_end) (simp add: boundary_after_word dBm_word)
  then have t: "match_at [One (CChar CHR ''d''), One (CChar CHR ''B''), One (CChar CHR ''m''), WordBoundary]
      (prev_seg prev b) (''dBm'' @ r) = Some 3"
    by simp
  have nd: "''dBm'' @ r = [] \<or> \<not> is_digit (hd (''dBm'' @ r))" by (simp add: d_not_digit)
  have "match_at [Many CDigit 1, One (CChar CHR ''d''), One (CChar CHR ''B''),
      One (CChar CHR ''m''), WordBoundary] prev (b @ ''dBm'' @ r) = Some (length b + 3)"
    by (rule many_digits[OF bd nd nonempty_length[OF bne] t])
  moreover have "is_boundary prev (b @ ''dBm'' @ r)"
    using bd bne assms(1) by (intro start_boundary) (auto dest: digit_word)
  ultimately have "match_at pat_dbm prev (b @ ''dBm'' @ r) = Some (length b + 3)"
    unfolding pat_dbm_def by (intro wb_start)
  with s wb show ?thesis by simp
qed

text \<open>Site codes.\<close>

lemma site_code_match:
  assumes "match_at pat_site_code prev s = Some m"
  shows "\<not> word_opt prev \<and> 0 < m \<and> \<not> hd_nonword s \<and> hd_nonword (drop m s) \<and>
         site_code (takeWhile is_word s)"
proof -
  from assms have b: "is_boundary prev s"
    and r: "match_at [Many CUpper 1, Many CDigit 1, Many CUpper 0, WordBoundary] prev s = Some m"
    by (simp_all add: pat_site_code_def split: if_splits)
  from r obtain a r1 j1 where s: "s = a @ r1" and a: "1 \<le> length a" "\<forall>x \<in> set a. in_class CUpper x"
    and m1: "match_at [Many CDigit 1, Many CUpper 0, WordBoundary] (prev_seg prev a) r1 = Some j1"
    and m: "m = length a + j1" by (rule many_split)
  from m1 obtain d r2 j2 where r1: "r1 = d @ r2" and d: "1 \<le> length d" "\<forall>x \<in> set d. in_class CDigit x"
    and m2: "match_at [Many CUpper 0, WordBoundary] (prev_seg (prev_seg prev a) d) r2 = Some j2"
    and j1: "j1 = length d + j2" by (rule many_split)
  from m2 obtain c r3 j3 where r2: "r2 = c @ r3" and c: "\<forall>x \<in> set c. in_class CUpper x"
    and m3: "match_at [WordBoundary] (prev_seg (prev_seg (prev_seg prev a) d) c) r3 = Some j3"
    and j2: "j2 = length c + j3" by (rule many_split)
  from final_boundary[OF m3] have j3: "j3 = 0"
    and fb: "is_boundary (prev_seg (prev_seg (prev_seg prev a) d) c) r3" by simp_all
  from a have ane: "a \<noteq> []" and au: "\<forall>x \<in> set a. is_upper x" by auto
  from d have dne: "d \<noteq> []" and dd: "\<forall>x \<in> set d. is_digit x" by auto
  from c have cu: "\<forall>x \<in> set c. is_upper x" by auto
  have aw: "\<forall>x \<in> set a. is_word x" using au by (auto dest: upper_word)
  have dw: "\<forall>x \<in> set d. is_word x" using dd by (auto dest: digit_word)
  have cw: "\<forall>x \<in> set c. is_word x" using cu by (auto dest: upper_word)
  have "\<exists>y. prev_seg (prev_seg (prev_seg prev a) d) c = Some y \<and> is_word y"
  proof (cases "c = []")
    case True
    with seg_word_prev[OF dne dw] show ?thesis by (simp add: prev_seg_def)
  next
    case False
    with seg_word_prev[OF False cw] show ?thesis by blast
  qed
  with fb have hn3: "hd_nonword r3" by (auto simp: boundary_after_word)
  have s': "s = (a @ d @ c) @ r3" using s r1 r2 by simp
  have allw: "\<forall>x \<in> set (a @ d @ c). is_word x" using aw dw cw by auto
  have "r3 = [] \<or> \<not> is_word (hd r3)" using hn3 by (cases r3) auto
  with allw have tw: "takeWhile is_word ((a @ d @ c) @ r3) = a @ d @ c"
    by (rule takeWhile_prefix_class)
  have "site_code (takeWhile is_word s)"
    unfolding s' tw site_code_def using ane dne au dd cu by blast
  moreover have "drop m s = r3" using s r1 r2 m j1 j2 j3 by simp
  moreover from start_not_word_prev[OF _ ane aw] b s have "\<not> word_opt prev" by simp
  moreover have "\<not> hd_nonword s" using s ane aw by (cases a) simp_all
  ultimately show ?thesis using hn3 m ane by simp
qed

lemma site_code_pattern: "word_pattern pat_site_code"
proof (rule word_patternI)
  fix prev s m
  assume "match_at pat_site_code prev s = Some m"
  from site_code_match[OF this]
  show "\<not> word_opt prev \<and> 0 < m \<and> \<not> hd_nonword s \<and> start_ok (Some (s ! (m - 1))) (drop m s)"
    by (simp add: start_ok_def)
qed

lemma site_code_complete:
  assumes "\<not> word_opt prev" and "is_word x" and "site_code (takeWhile is_word (x # xs))"
  shows "match_at pat_site_code prev (x # xs) \<noteq> None"
proof -
  from run_split[OF assms(2), of xs] obtain w r where s: "x # xs = w @ r"
    and w: "w = takeWhile is_word (x # xs)" and ne: "w \<noteq> []" and hn: "hd_nonword r" by blast
  from assms(3) obtain a d c where wb: "w = a @ d @ c" and ane: "a \<noteq> []" and dne: "d \<noteq> []"
    and au: "\<forall>y \<in> set a. is_upper y" and dd: "\<forall>y \<in> set d. is_digit y" and cu: "\<forall>y \<in> set c. is_upper y"
    unfolding w[symmetric] site_code_def by blast
  have dw: "\<forall>x \<in> set d. is_word x" using dd by (auto dest: digit_word)
  have cw: "\<forall>x \<in> set c. is_word x" using cu by (auto dest: upper_word)
  have "\<exists>y. prev_seg (prev_seg (prev_seg prev a) d) c = Some y \<and> is_word y"
  proof (cases "c = []")
    case True
    with seg_word_prev[OF dne dw] show ?thesis by (simp add: prev_seg_def)
  next
    case False
    with seg_word_prev[OF False cw] show ?thesis by blast
  qed
  then have "is_boundary (prev_seg (prev_seg (prev_seg prev a) d) c) r"
    using hn by (auto simp: boundary_after_word)
  then have 1: "match_at [WordBoundary] (prev_seg (prev_seg (prev_seg prev a) d) c) r = Some 0"
    by (rule wb_end)
  have 2: "match_at [Many CUpper 0, WordBoundary] (prev_seg (prev_seg prev a) d) (c @ r) = Some (length c + 0)"
    by (rule many_uppers[OF cu hd_nonword_not_upper[OF hn] _ 1]) simp
  have "c @ r = [] \<or> \<not> is_digit (hd (c @ r))"
  proof (cases c)
    case Nil
    with hd_nonword_not_digit[OF hn] show ?thesis by simp
  next
    case (Cons y ys)
    with cu have "is_upper y" by simp
    then have "\<not> is_digit y" using digit_not_upper by blast
    with Cons show ?thesis by simp
  qed
  then have 3: "match_at [Many CDigit 1, Many CUpper 0, WordBoundary] (prev_seg prev a) (d @ c @ r)
      = Some (length d + (length c + 0))"
    by (rule many_digits[OF dd _ nonempty_length[OF dne] 2])
  have "d @ c @ r = [] \<or> \<not> is_upper (hd (d @ c @ r))"
    using dne dd by (cases d) (auto dest: digit_not_upper)
  then have 4: "match_at [Many CUpper 1, Many CDigit 1, Many CUpper 0, WordBoundary] prev (a @ d @ c @ r)
      = Some (length a + (length d + (length c + 0)))"
    by (rule many_uppers[OF au _ nonempty_length[OF ane] 3])
  have "is_boundary prev (a @ d @ c @ r)"
    using au ane assms(1) by (intro start_boundary) (auto dest: upper_word)
  with 4 have "match_at pat_site_code prev (a @ d @ c @ r) = Some (length a + (length d + (length c + 0)))"
    unfolding pat_site_code_def by (intro wb_start)
  with s wb show ?thesis by simp
qed

subsubsection \<open>Word runs after the first five substitutions\<close>

lemma start_ok_None [simp]: "start_ok None s"
  by (simp add: start_ok_def word_opt_def)

lemma bad_run_hd: "bad_run w \<Longrightarrow> w \<noteq> [] \<and> (is_digit (hd w) \<or> is_upper (hd w))"
  unfolding bad_run_def all_digits_def site_code_def dbm_level_def
  by (auto simp: hd_append)

lemma runs_the_area: "word_runs ''the area'' = [''the'', ''area'']"
  by (simp add: word_runs.simps(2) is_word_def code_def Let_def)

lemma runs_signal_level: "word_runs ''current signal level'' = [''current'', ''signal'', ''level'']"
  by (simp add: word_runs.simps(2) is_word_def code_def Let_def)

lemma new_words_good:
  "w \<in> {''the'', ''area'', ''current'', ''signal'', ''level''} \<Longrightarrow> \<not> bad_run w"
  by (auto dest!: bad_run_hd simp: is_digit_def is_upper_def code_def Let_def)

lemma runs_site_code:
  "set (word_runs (re_sub pat_site_code ''the area'' s))
   \<subseteq> {w \<in> set (word_runs s). \<not> site_code w} \<union> {''the'', ''area''}"
proof -
  have rb: "''the area'' = [] \<or> (\<forall>prev s n. match_at pat_site_code prev s = Some n \<longrightarrow> hd_nonword (drop n s))"
    using site_code_match by blast
  from sub_runs[OF site_code_pattern rb, of site_code None s] site_code_complete
  show ?thesis by (simp add: re_sub_def runs_the_area)
qed

lemma runs_decimal: "set (word_runs (re_sub pat_decimal [] s)) \<subseteq> set (word_runs s)"
proof -
  have "set (word_runs (re_sub_from pat_decimal [] None s))
        \<subseteq> {w \<in> set (word_runs s). \<not> (\<lambda>w. False) w} \<union> set (word_runs [])"
    using sub_runs[OF decimal_pattern, of "[]" "\<lambda>w. False" None s] by simp
  then show ?thesis by (simp add: re_sub_def)
qed

lemma runs_integer:
  "set (word_runs (re_sub pat_integer [] s)) \<subseteq> {w \<in> set (word_runs s). \<not> all_digits w}"
proof -
  from sub_runs[OF integer_pattern, of "[]" all_digits None s] integer_complete
  show ?thesis by (simp add: re_sub_def)
qed

lemma runs_dbm:
  "set (word_runs (re_sub pat_dbm ''current signal level'' s))
   \<subseteq> {w \<in> set (word_runs s). \<not> dbm_level w} \<union> {''current'', ''signal'', ''level''}"
proof -
  have rb: "''current signal level'' = [] \<or>
      (\<forall>prev s n. match_at pat_dbm prev s = Some n \<longrightarrow> hd_nonword (drop n s))"
    using dbm_match by blast
  from sub_runs[OF dbm_pattern rb, of dbm_level None s] dbm_complete
  show ?thesis by (simp add: re_sub_def runs_signal_level)
qed

lemma runs_percent: "set (word_runs (re_sub pat_percent [] s)) \<subseteq> set (word_runs s)"
proof -
  have "set (word_runs (re_sub_from pat_percent [] None s))
        \<subseteq> {w \<in> set (word_runs s). \<not> (\<lambda>w. False) w} \<union> set (word_runs [])"
    using sub_runs[OF percent_pattern, of "[]" "\<lambda>w. False" None s] by simp
  then show ?thesis by (simp add: re_sub_def)
qed

lemma five_subs_good: "\<forall>w \<in> set (word_runs (five_subs s)). \<not> bad_run w"
proof
  fix w
  assume "w \<in> set (word_runs (five_subs s))"
  then have "w \<in> set (word_runs (re_sub pat_dbm ''current signal level''
          (re_sub pat_integer [] (re_sub pat_decimal [] (re_sub pat_site_code ''the area'' s)))))"
    unfolding five_subs_def using runs_percent by blast
  then consider "w \<in> {''current'', ''signal'', ''level''}"
    | "\<not> dbm_level w" "w \<in> set (word_runs (re_sub pat_integer []
          (re_sub pat_decimal [] (re_sub pat_site_code ''the area'' s))))"
    using runs_dbm by blast
  then show "\<not> bad_run w"
  proof cases
    case 1
    then show ?thesis by (intro new_words_good) auto
  next
    case 2
    from 2(2) have nd: "\<not> all_digits w"
      and "w \<in> set (word_runs (re_sub pat_decimal [] (re_sub pat_site_code ''the area'' s)))"
      using runs_integer by blast+
    then have "w \<in> set (word_runs (re_sub pat_site_code ''the area'' s))"
      using runs_decimal by blast
    then consider "w \<in> {''the'', ''area''}" | "\<not> site_code w"
      using runs_site_code by blast
    then show ?thesis
    proof cases
      case 1
      then show ?thesis by (intro new_words_good) auto
    next
      case 2
      with nd \<open>\<not> dbm_level w\<close> show ?thesis by (simp add: bad_run_def)
    qed
  qed
qed

subsubsection \<open>The five substitutions on a text without such runs\<close>

lemma sound_site_code: "match_at pat_site_code prev (x # xs) = Some n \<Longrightarrow> bad_run (takeWhile is_word (x # xs))"
  unfolding bad_run_def using site_code_match by blast

lemma sound_decimal: "match_at pat_decimal prev (x # xs) = Some n \<Longrightarrow> bad_run (takeWhile is_word (x # xs))"
  unfolding bad_run_def using decimal_match by blast

lemma sound_integer: "match_at pat_integer prev (x # xs) = Some n \<Longrightarrow> bad_run (takeWhile is_word (x # xs))"
  unfolding bad_run_def using integer_sound by blast

lemma sound_dbm: "match_at pat_dbm prev (x # xs) = Some n \<Longrightarrow> bad_run (takeWhile is_word (x # xs))"
  unfolding bad_run_def using dbm_match by blast

lemma sound_percent: "match_at pat_percent prev (x # xs) = Some n \<Longrightarrow> bad_run (takeWhile is_word (x # xs))"
  unfolding bad_run_def using percent_match by blast

lemma five_subs_identity:
  assumes "\<forall>w \<in> set (word_runs s). \<not> bad_run w"
  shows "five_subs s = s"
proof -
  have 1: "re_sub pat_site_code ''the area'' s = s"
    unfolding re_sub_def
    by (rule sub_identity[OF site_code_pattern _ start_ok_None assms])
       (rule sound_site_code)
  have 2: "re_sub pat_decimal [] s = s"
    unfolding re_sub_def
    by (rule sub_identity[OF decimal_pattern _ start_ok_None assms])
       (rule sound_decimal)
  have 3: "re_sub pat_integer [] s = s"
    unfolding re_sub_def
    by (rule sub_identity[OF integer_pattern _ start_ok_None assms])
       (rule sound_integer)
  have 4: "re_sub pat_dbm ''current signal level'' s = s"
    unfolding re_sub_def
    by (rule sub_identity[OF dbm_pattern _ start_ok_None assms])
       (rule sound_dbm)
  have 5: "re_sub pat_percent [] s = s"
    unfolding re_sub_def
    by (rule sub_identity[OF percent_pattern _ start_ok_None assms])
       (rule sound_percent)
  show ?thesis by (simp add: five_subs_def 1 2 3 4 5)
qed

subsubsection \<open>The three punctuation patterns\<close>

lemma in_class_space: "in_class CSpace = is_space"
  by (rule ext) simp

lemma spaces_match:
  "match_at pat_spaces prev s =
     (if takeWhile is_space s = [] then None else Some (length (takeWhile is_space s)))"
proof (cases "takeWhile is_space s = []")
  case True
  have "match_at (Many CSpace 1 # []) prev s = None"
    by (rule match_many_NoneI) (simp add: in_class_space True)
  with True show ?thesis unfolding pat_spaces_def by (simp del: match_at.simps)
next
  case False
  have "match_at [] (prev_at prev s (length (takeWhile is_space s)))
          (drop (length (takeWhile is_space s)) s) = Some 0"
    by simp
  moreover from False have "1 \<le> length (takeWhile is_space s)"
    by (simp add: Suc_le_eq)
  ultimately have "match_at (Many CSpace 1 # []) prev s = Some (length (takeWhile is_space s) + 0)"
    by (intro match_many_max) (simp_all only: in_class_space)
  with False show ?thesis unfolding pat_spaces_def by (simp del: match_at.simps)
qed

lemma comma_comma_match:
  assumes "match_at pat_comma_comma prev s = Some n"
  obtains w r where "s = CHR '','' # w @ CHR '','' # r" and "\<forall>c \<in> set w. is_space c"
    and "n = length w + 2"
proof -
  from assms have "match_at (One (CChar CHR '','') # [Many CSpace 0, One (CChar CHR '','')]) prev s = Some n"
    by (simp only: pat_comma_comma_def)
  then obtain x xs j where s: "s = x # xs" and x: "in_class (CChar CHR '','') x"
    and j: "match_at (Many CSpace 0 # [One (CChar CHR '','')]) (Some x) xs = Some j" and n: "n = Suc j"
    by (rule one_split)
  from j obtain w r j' where xs: "xs = w @ r" and w: "\<forall>c \<in> set w. in_class CSpace c"
    and j': "match_at (One (CChar CHR '','') # []) (prev_seg (Some x) w) r = Some j'"
    and jj: "j = length w + j'"
    by (rule many_split)
  from j' obtain y ys j'' where r: "r = y # ys" and y: "in_class (CChar CHR '','') y"
    and j'': "match_at [] (Some y) ys = Some j''" and e: "j' = Suc j''"
    by (rule one_split)
  from j'' have "j'' = 0" by simp
  with s xs r x y w n jj e show ?thesis by (intro that[of w ys]) simp_all
qed

lemma space_comma_match:
  "match_at pat_space_comma prev s =
     (case s of x # y # r \<Rightarrow> if is_space x \<and> y = CHR '','' then Some 2 else None | _ \<Rightarrow> None)"
  by (simp add: pat_space_comma_def split: list.splits)

subsubsection \<open>Word runs are kept by the punctuation cleanup\<close>

lemma word_runs_mid:
  assumes "m \<noteq> []" and "\<forall>c \<in> set m. \<not> is_word c"
  shows "word_runs (a @ m @ y) = word_runs a @ word_runs y"
proof -
  from assms have l: "\<not> is_word (last (a @ m))" by simp
  from assms have h: "hd_nonword m" by (cases m) simp_all
  have "word_runs ((a @ m) @ y) = word_runs (a @ m) @ word_runs y"
    by (rule word_runs_append) (use l in blast)
  also have "word_runs (a @ m) = word_runs a @ word_runs m"
    by (rule word_runs_append) (use h in blast)
  also from assms(2) have "word_runs m = []" by (rule word_runs_all_nonword)
  finally show ?thesis by simp
qed

lemma sub_keeps_runs:
  assumes np: "nonword_pattern p" and r: "r \<noteq> []" "\<forall>c \<in> set r. \<not> is_word c"
  shows "word_runs (a @ re_sub_from p r prev s) = word_runs (a @ s)"
proof (induction "length s" arbitrary: s prev a rule: less_induct)
  case less
  show ?case
  proof (cases "match_at p prev s")
    case None
    show ?thesis
    proof (cases s)
      case Nil
      with None show ?thesis by (subst re_sub_from.simps) simp
    next
      case (Cons x xs)
      with None have "re_sub_from p r prev s = x # re_sub_from p r (Some x) xs"
        by (simp add: sub_None)
      moreover from Cons have "word_runs ((a @ [x]) @ re_sub_from p r (Some x) xs) = word_runs ((a @ [x]) @ xs)"
        by (intro less) simp
      ultimately show ?thesis using Cons by simp
    qed
  next
    case (Some n)
    with np have n: "0 < n" "n \<le> length s" "\<forall>c \<in> set (take n s). \<not> is_word c"
      unfolding nonword_pattern_def by blast+
    from Some n(1) have e: "re_sub_from p r prev s = r @ re_sub_from p r (Some (s ! (n - 1))) (drop n s)"
      by (subst re_sub_from.simps) simp
    let ?out = "re_sub_from p r (Some (s ! (n - 1))) (drop n s)"
    from n have ne: "take n s \<noteq> []" by auto
    have "word_runs (a @ r @ ?out) = word_runs a @ word_runs ?out"
      using r by (rule word_runs_mid)
    also have "word_runs ?out = word_runs (drop n s)"
      using less[of "drop n s" "[]"] n by simp
    also have "word_runs a @ word_runs (drop n s) = word_runs (a @ take n s @ drop n s)"
      using ne n(3) by (rule word_runs_mid[symmetric])
    finally show ?thesis by (simp add: e)
  qed
qed

lemma space_not_word_all: "\<forall>c \<in> set w. is_space c \<Longrightarrow> \<forall>c \<in> set w. \<not> is_word c"
  using space_not_word by blast

lemma spaces_nonword: "nonword_pattern pat_spaces"
  unfolding nonword_pattern_def
proof (intro allI impI)
  fix prev s n
  assume "match_at pat_spaces prev s = Some n"
  then have ne: "takeWhile is_space s \<noteq> []" and n: "n = length (takeWhile is_space s)"
    by (simp_all add: spaces_match split: if_splits)
  have "take n s = takeWhile is_space s"
    unfolding n by (metis append_eq_conv_conj takeWhile_dropWhile_id)
  moreover have "\<forall>c \<in> set (takeWhile is_space s). is_space c"
    by (auto dest: set_takeWhileD)
  ultimately have "\<forall>c \<in> set (take n s). \<not> is_word c"
    using space_not_word by auto
  moreover from ne n have "0 < n" by simp
  moreover have "n \<le> length s" unfolding n by (rule length_takeWhile_le)
  ultimately show "0 < n \<and> n \<le> length s \<and> (\<forall>c \<in> set (take n s). \<not> is_word c)" by blast
qed

lemma comma_comma_nonword: "nonword_pattern pat_comma_comma"
  unfolding nonword_pattern_def
proof (intro allI impI)
  fix prev s n
  assume "match_at pat_comma_comma prev s = Some n"
  then obtain w r where s: "s = CHR '','' # w @ CHR '','' # r" and w: "\<forall>c \<in> set w. is_space c"
    and n: "n = length w + 2"
    by (rule comma_comma_match)
  from s n have "take n s = CHR '','' # w @ [CHR '','']" by simp
  moreover from w have "\<forall>c \<in> set w. \<not> is_word c" by (rule space_not_word_all)
  ultimately have "\<forall>c \<in> set (take n s). \<not> is_word c"
    using comma_not_word by auto
  with s n show "0 < n \<and> n \<le> length s \<and> (\<forall>c \<in> set (take n s). \<not> is_word c)" by simp
qed

lemma space_comma_nonword: "nonword_pattern pat_space_comma"
  unfolding nonword_pattern_def
  by (auto simp: space_comma_match comma_not_word space_not_word split: list.splits if_splits)

lemma blank_not_word: "\<not> is_word CHR '' ''"
  using blank_space space_not_word by blast

lemma spaces_keep_runs: "word_runs (re_sub pat_spaces '' '' s) = word_runs s"
  using sub_keeps_runs[OF spaces_nonword, of "'' ''" "[]" None s]
  by (simp add: re_sub_def blank_not_word)

lemma comma_comma_keeps_runs: "word_runs (re_sub pat_comma_comma '','' s) = word_runs s"
  using sub_keeps_runs[OF comma_comma_nonword, of "'',''" "[]" None s]
  by (simp add: re_sub_def comma_not_word)

lemma space_comma_keeps_runs: "word_runs (re_sub pat_space_comma '','' s) = word_runs s"
  using sub_keeps_runs[OF space_comma_nonword, of "'',''" "[]" None s]
  by (simp add: re_sub_def comma_not_word)

lemma dropWhile_space_runs: "word_runs (dropWhile is_space s) = word_runs s"
  by (induction s) (simp_all add: space_not_word)

lemma word_runs_drop_trailing: "word_runs (rev (dropWhile is_space (rev s))) = word_runs s"
proof -
  let ?m = "rev (takeWhile is_space (rev s))"
  let ?a = "rev (dropWhile is_space (rev s))"
  have s: "s = ?a @ ?m"
    by (metis rev_append rev_rev_ident takeWhile_dropWhile_id)
  have m: "\<forall>c \<in> set ?m. \<not> is_word c"
    by (auto dest: set_takeWhileD simp: space_not_word)
  show ?thesis
  proof (cases "?m = []")
    case True
    with s show ?thesis by simp
  next
    case False
    from word_runs_mid[OF False m, of ?a "[]"] s show ?thesis by simp
  qed
qed

lemma strip_keeps_runs: "word_runs (strip s) = word_runs s"
  by (simp add: strip_def word_runs_drop_trailing dropWhile_space_runs)

subsubsection \<open>Adjacent characters\<close>

lemma no_pair_append:
  "no_pair R prev (a @ b) = (no_pair R prev a \<and> no_pair R (prev_seg prev a) b)"
  by (induction a arbitrary: prev) (simp_all add: prev_seg_def)

lemma no_pair_None: "no_pair R prev s \<Longrightarrow> no_pair R None s"
  by (cases s) simp_all

lemma no_pair_SomeI: "no_pair R None s \<Longrightarrow> s = [] \<or> \<not> R c (hd s) \<Longrightarrow> no_pair R (Some c) s"
  by (cases s) simp_all

lemma no_pair_prefix: "no_pair R prev (a @ b) \<Longrightarrow> no_pair R prev a"
  by (simp add: no_pair_append)

lemma no_pair_suffix: "no_pair R prev (a @ b) \<Longrightarrow> no_pair R None b"
  by (auto simp: no_pair_append dest: no_pair_None)

lemma no_pair_strip: "no_pair R None s \<Longrightarrow> no_pair R None (strip s)"
proof -
  assume a: "no_pair R None s"
  let ?d = "dropWhile is_space s"
  have "s = takeWhile is_space s @ ?d" by simp
  with a have d: "no_pair R None ?d" by (metis no_pair_suffix)
  have "?d = rev (dropWhile is_space (rev ?d)) @ rev (takeWhile is_space (rev ?d))"
    by (metis rev_append rev_rev_ident takeWhile_dropWhile_id)
  with d have "no_pair R None (rev (dropWhile is_space (rev ?d)))" by (metis no_pair_prefix)
  then show ?thesis by (simp add: strip_def)
qed

lemma set_strip: "set (strip s) \<subseteq> set s"
  by (auto simp: strip_def dest!: set_dropWhileD)

lemma only_blanks_strip: "only_blanks s \<Longrightarrow> only_blanks (strip s)"
  using set_strip unfolding only_blanks_def by blast

lemma dropWhile_id: "s = [] \<or> \<not> P (hd s) \<Longrightarrow> dropWhile P s = s"
  by (cases s) auto

lemma strip_strip: "strip (strip s) = strip s"
proof -
  let ?z = "dropWhile is_space s"
  let ?u = "rev (dropWhile is_space (rev ?z))"
  have u: "strip s = ?u" by (simp add: strip_def)
  have z: "?z = ?u @ rev (takeWhile is_space (rev ?z))"
    by (metis rev_append rev_rev_ident takeWhile_dropWhile_id)
  have hz: "?z = [] \<or> \<not> is_space (hd ?z)"
    by (metis hd_dropWhile)
  have hu: "?u = [] \<or> \<not> is_space (hd ?u)"
  proof (cases "?u = []")
    case False
    with z have "hd ?z = hd ?u" by (metis hd_append2)
    moreover from False z have "?z \<noteq> []" by (metis append_is_Nil_conv)
    ultimately show ?thesis using hz by metis
  qed simp
  then have 1: "dropWhile is_space ?u = ?u" by (rule dropWhile_id)
  have "rev ?u = dropWhile is_space (rev ?z)" by simp
  then have "rev ?u = [] \<or> \<not> is_space (hd (rev ?u))" by (metis hd_dropWhile)
  then have 2: "dropWhile is_space (rev ?u) = rev ?u" by (rule dropWhile_id)
  have "strip ?u = rev (dropWhile is_space (rev (dropWhile is_space ?u)))" by (simp only: strip_def)
  also have "dropWhile is_space (rev (dropWhile is_space ?u)) = rev ?u" by (simp only: 1 2)
  also have "rev (rev ?u) = ?u" by (rule rev_rev_ident)
  finally show ?thesis by (simp only: u)
qed


subsubsection \<open>Whitespace after the collapse\<close>

lemma sub_Nil_spaces [simp]: "re_sub_from pat_spaces r prev [] = []"
  by (subst re_sub_from.simps) (simp add: spaces_match)

lemma sub_spaces_space:
  assumes "is_space x"
  shows "re_sub_from pat_spaces r prev (x # xs) =
         r @ re_sub_from pat_spaces r (Some (last (x # takeWhile is_space xs))) (dropWhile is_space xs)"
proof -
  let ?s = "x # xs"
  let ?n = "length (takeWhile is_space ?s)"
  from assms have tw: "takeWhile is_space ?s = x # takeWhile is_space xs" by simp
  then have m: "match_at pat_spaces prev ?s = Some ?n" by (simp only: spaces_match) simp
  have d: "drop ?n ?s = dropWhile is_space xs"
    using assms by (metis append_eq_conv_conj dropWhile.simps(2) takeWhile_dropWhile_id)
  have t: "take ?n ?s = x # takeWhile is_space xs"
    using tw by (metis append_eq_conv_conj takeWhile_dropWhile_id)
  have "0 < ?n" "?n \<le> length ?s" using tw by (simp_all add: length_takeWhile_le Suc_le_eq less_Suc_eq_le)
  then have "?s ! (?n - 1) = last (take ?n ?s)" by (simp only: last_take_nth)
  with t have l: "?s ! (?n - 1) = last (x # takeWhile is_space xs)" by simp
  from tw have "?n \<noteq> 0" by simp
  with m d l show ?thesis by (subst re_sub_from.simps) (simp del: takeWhile.simps dropWhile.simps last.simps)
qed

lemma sub_spaces_other:
  assumes "\<not> is_space x"
  shows "re_sub_from pat_spaces r prev (x # xs) = x # re_sub_from pat_spaces r (Some x) xs"
  using assms by (intro sub_None) (simp add: spaces_match)

lemma hd_dropWhile_space: "dropWhile is_space xs = [] \<or> \<not> is_space (hd (dropWhile is_space xs))"
  by (metis hd_dropWhile)

lemma spaces_out:
  "only_blanks (re_sub_from pat_spaces '' '' prev s) \<and>
   no_pair two_spaces None (re_sub_from pat_spaces '' '' prev s) \<and>
   (s = [] \<or> \<not> is_space (hd s) \<longrightarrow>
      re_sub_from pat_spaces '' '' prev s = [] \<or> \<not> is_space (hd (re_sub_from pat_spaces '' '' prev s)))"
proof (induction "length s" arbitrary: s prev rule: less_induct)
  case less
  show ?case
  proof (cases s)
    case Nil
    then show ?thesis by (simp add: only_blanks_def)
  next
    case (Cons x xs)
    show ?thesis
    proof (cases "is_space x")
      case True
      let ?d = "dropWhile is_space xs"
      let ?p = "Some (last (x # takeWhile is_space xs))"
      let ?o = "re_sub_from pat_spaces '' '' ?p ?d"
      have "length ?d < length s" using Cons by (simp add: less_Suc_eq_le length_dropWhile_le)
      from less[OF this, of ?p] hd_dropWhile_space[of xs]
      have ih: "only_blanks ?o" "no_pair two_spaces None ?o" "?o = [] \<or> \<not> is_space (hd ?o)"
        by blast+
      from ih(3) have "?o = [] \<or> \<not> two_spaces CHR '' '' (hd ?o)" by (auto simp: two_spaces_def)
      with ih(2) have "no_pair two_spaces (Some CHR '' '') ?o" by (rule no_pair_SomeI)
      moreover have "re_sub_from pat_spaces '' '' prev s = CHR '' '' # ?o"
        unfolding Cons using sub_spaces_space[OF True, of "'' ''" prev xs] by simp
      ultimately show ?thesis using ih(1) True Cons by (simp add: only_blanks_def)
    next
      case False
      let ?o = "re_sub_from pat_spaces '' '' (Some x) xs"
      have "length xs < length s" using Cons by simp
      from less[OF this, of "Some x"]
      have ih: "only_blanks ?o" "no_pair two_spaces None ?o" by blast+
      from False have "?o = [] \<or> \<not> two_spaces x (hd ?o)" by (simp add: two_spaces_def)
      with ih(2) have "no_pair two_spaces (Some x) ?o" by (rule no_pair_SomeI)
      moreover have "re_sub_from pat_spaces '' '' prev s = x # ?o"
        unfolding Cons using False by (rule sub_spaces_other)
      ultimately show ?thesis using ih(1) False by (simp add: only_blanks_def)
    qed
  qed
qed

lemma spaces_identity:
  "only_blanks s \<Longrightarrow> no_pair two_spaces None s \<Longrightarrow> re_sub_from pat_spaces '' '' prev s = s"
proof (induction s arbitrary: prev)
  case Nil
  show ?case by simp
next
  case (Cons x xs)
  from Cons.prems have ob: "only_blanks xs" and np: "no_pair two_spaces (Some x) xs"
    by (simp_all add: only_blanks_def)
  from np have np': "no_pair two_spaces None xs" by (rule no_pair_None)
  show ?case
  proof (cases "is_space x")
    case True
    with Cons.prems(1) have x: "x = CHR '' ''" by (simp add: only_blanks_def)
    from np True have h: "xs = [] \<or> \<not> is_space (hd xs)"
      by (cases xs) (simp_all add: two_spaces_def)
    then have d: "dropWhile is_space xs = xs" by (rule dropWhile_id)
    from h have t: "takeWhile is_space xs = []" by (cases xs) auto
    from sub_spaces_space[OF True, of "'' ''" prev xs] Cons.IH[OF ob np', of "Some x"]
    show ?thesis by (simp add: d t x)
  next
    case False
    from sub_spaces_other[OF False, of "'' ''" prev xs] Cons.IH[OF ob np', of "Some x"]
    show ?thesis by simp
  qed
qed

subsubsection \<open>The comma patterns\<close>

lemma sub_Nil_any: "match_at p prev [] = None \<Longrightarrow> re_sub_from p r prev [] = []"
  by (subst re_sub_from.simps) simp

lemma comma_comma_Nil [simp]: "match_at pat_comma_comma prev [] = None"
  by (simp add: pat_comma_comma_def)

lemma space_comma_Nil [simp]: "match_at pat_space_comma prev [] = None"
  by (simp add: space_comma_match)

lemma comma_comma_step:
  assumes "match_at pat_comma_comma prev s = Some n"
  obtains w r where "s = CHR '','' # w @ CHR '','' # r" and "\<forall>c \<in> set w. is_space c"
    and "re_sub_from pat_comma_comma '','' prev s = CHR '','' # re_sub_from pat_comma_comma '','' (Some CHR '','') r"
proof -
  from assms obtain w r where s: "s = CHR '','' # w @ CHR '','' # r" and w: "\<forall>c \<in> set w. is_space c"
    and n: "n = length w + 2"
    by (rule comma_comma_match)
  from s n have d: "drop n s = r" by simp
  from s n have l: "s ! (n - 1) = CHR '',''" by (simp add: nth_append)
  from n have "n \<noteq> 0" by simp
  with assms d l have "re_sub_from pat_comma_comma '','' prev s =
      CHR '','' # re_sub_from pat_comma_comma '','' (Some CHR '','') r"
    by (subst re_sub_from.simps) simp
  with s w show ?thesis by (rule that)
qed

lemma comma_comma_keeps:
  "no_pair R prev s \<Longrightarrow> no_pair R prev (re_sub_from pat_comma_comma '','' prev s)"
proof (induction "length s" arbitrary: s prev rule: less_induct)
  case less
  show ?case
  proof (cases "match_at pat_comma_comma prev s")
    case None
    show ?thesis
    proof (cases s)
      case Nil
      then show ?thesis by (simp add: sub_Nil_any)
    next
      case (Cons x xs)
      from None have e: "re_sub_from pat_comma_comma '','' prev (x # xs) =
          x # re_sub_from pat_comma_comma '','' (Some x) xs"
        unfolding Cons by (rule sub_None)
      from less.prems Cons have "no_pair R (Some x) xs" by simp
      then have "no_pair R (Some x) (re_sub_from pat_comma_comma '','' (Some x) xs)"
        by (intro less) (simp_all add: Cons)
      with less.prems show ?thesis by (simp add: Cons e)
    qed
  next
    case (Some n)
    then obtain w r where s: "s = CHR '','' # w @ CHR '','' # r"
      and e: "re_sub_from pat_comma_comma '','' prev s =
              CHR '','' # re_sub_from pat_comma_comma '','' (Some CHR '','') r"
      by (rule comma_comma_step)
    have "s = (CHR '','' # w @ [CHR '','']) @ r" by (simp add: s)
    with less.prems have "no_pair R (prev_seg prev (CHR '','' # w @ [CHR '',''])) r"
      by (metis no_pair_append)
    then have "no_pair R (Some CHR '','') r" by (simp add: prev_seg_def)
    then have "no_pair R (Some CHR '','') (re_sub_from pat_comma_comma '','' (Some CHR '','') r)"
      by (intro less) (simp_all add: s)
    moreover from less.prems s have "case prev of None \<Rightarrow> True | Some p \<Rightarrow> \<not> R p CHR '',''"
      by simp
    ultimately show ?thesis by (simp add: e)
  qed
qed

lemma comma_comma_set: "set (re_sub_from pat_comma_comma '','' prev s) \<subseteq> set s"
proof (induction "length s" arbitrary: s prev rule: less_induct)
  case less
  show ?case
  proof (cases "match_at pat_comma_comma prev s")
    case None
    show ?thesis
    proof (cases s)
      case Nil
      then show ?thesis by (simp add: sub_Nil_any)
    next
      case (Cons x xs)
      from None have e: "re_sub_from pat_comma_comma '','' prev (x # xs) =
          x # re_sub_from pat_comma_comma '','' (Some x) xs"
        unfolding Cons by (rule sub_None)
      have "set (re_sub_from pat_comma_comma '','' (Some x) xs) \<subseteq> set xs"
        by (intro less) (simp add: Cons)
      then show ?thesis by (auto simp: Cons e)
    qed
  next
    case (Some n)
    then obtain w r where s: "s = CHR '','' # w @ CHR '','' # r"
      and e: "re_sub_from pat_comma_comma '','' prev s =
              CHR '','' # re_sub_from pat_comma_comma '','' (Some CHR '','') r"
      by (rule comma_comma_step)
    have "set (re_sub_from pat_comma_comma '','' (Some CHR '','') r) \<subseteq> set r"
      by (intro less) (simp add: s)
    then show ?thesis unfolding e by (auto simp: s)
  qed
qed


lemma space_comma_Some:
  "is_space x \<Longrightarrow> re_sub_from pat_space_comma '','' prev (x # CHR '','' # r) =
     CHR '','' # re_sub_from pat_space_comma '','' (Some CHR '','') r"
  by (subst re_sub_from.simps) (simp add: space_comma_match)

lemma space_comma_None:
  "\<not> (is_space x \<and> xs \<noteq> [] \<and> hd xs = CHR '','') \<Longrightarrow>
   re_sub_from pat_space_comma '','' prev (x # xs) = x # re_sub_from pat_space_comma '','' (Some x) xs"
  by (rule sub_None) (auto simp: space_comma_match split: list.splits)

lemma space_comma_cases:
  obtains "s = []"
  | x r where "s = x # CHR '','' # r" and "is_space x"
  | x xs where "s = x # xs" and "\<not> (is_space x \<and> xs \<noteq> [] \<and> hd xs = CHR '','')"
proof (cases s)
  case Nil
  then show ?thesis by (rule that(1))
next
  case (Cons x xs)
  show ?thesis
  proof (cases "is_space x \<and> xs \<noteq> [] \<and> hd xs = CHR '',''")
    case True
    then obtain r where "xs = CHR '','' # r" by (cases xs) auto
    with Cons True show ?thesis by (intro that(2)) auto
  next
    case False
    with Cons show ?thesis by (rule that(3))
  qed
qed

lemma space_comma_set: "set (re_sub_from pat_space_comma '','' prev s) \<subseteq> set s"
proof (induction "length s" arbitrary: s prev rule: less_induct)
  case less
  show ?case
  proof (cases s rule: space_comma_cases)
    case 1
    then show ?thesis by (simp add: sub_Nil_any)
  next
    case (2 x r)
    have "set (re_sub_from pat_space_comma '','' (Some CHR '','') r) \<subseteq> set r"
      by (intro less) (simp add: 2)
    then show ?thesis unfolding 2(1) space_comma_Some[OF 2(2)] by auto
  next
    case (3 x xs)
    have "set (re_sub_from pat_space_comma '','' (Some x) xs) \<subseteq> set xs"
      by (intro less) (simp add: 3)
    then show ?thesis unfolding 3(1) space_comma_None[OF 3(2)] by auto
  qed
qed

lemma space_comma_keeps_spaces:
  "no_pair two_spaces prev s \<Longrightarrow> no_pair two_spaces prev (re_sub_from pat_space_comma '','' prev s)"
proof (induction "length s" arbitrary: s prev rule: less_induct)
  case less
  show ?case
  proof (cases s rule: space_comma_cases)
    case 1
    then show ?thesis by (simp add: sub_Nil_any)
  next
    case (2 x r)
    from less.prems have "no_pair two_spaces (Some CHR '','') r" by (simp add: 2)
    then have "no_pair two_spaces (Some CHR '','') (re_sub_from pat_space_comma '','' (Some CHR '','') r)"
      by (intro less) (simp_all add: 2)
    then show ?thesis unfolding 2(1) space_comma_Some[OF 2(2)]
      by (simp add: two_spaces_def comma_not_space split: option.splits)
  next
    case (3 x xs)
    from less.prems have "no_pair two_spaces (Some x) xs" by (simp add: 3)
    then have "no_pair two_spaces (Some x) (re_sub_from pat_space_comma '','' (Some x) xs)"
      by (intro less) (simp_all add: 3)
    with less.prems show ?thesis unfolding 3(1) space_comma_None[OF 3(2)] by simp
  qed
qed

lemma space_comma_out:
  "no_pair two_spaces prev s \<Longrightarrow> no_pair space_comma prev (take 1 s) \<Longrightarrow>
   no_pair space_comma prev (re_sub_from pat_space_comma '','' prev s)"
proof (induction "length s" arbitrary: s prev rule: less_induct)
  case less
  show ?case
  proof (cases s rule: space_comma_cases)
    case 1
    then show ?thesis by (simp add: sub_Nil_any)
  next
    case (2 x r)
    from less.prems(1) have "no_pair two_spaces (Some CHR '','') r" by (simp add: 2)
    moreover have "no_pair space_comma (Some CHR '','') (take 1 r)"
      by (cases r) (simp_all add: space_comma_def comma_not_space)
    ultimately have "no_pair space_comma (Some CHR '','')
        (re_sub_from pat_space_comma '','' (Some CHR '','') r)"
      by (intro less) (simp_all add: 2)
    moreover from less.prems(1) 2 have "case prev of None \<Rightarrow> True | Some p \<Rightarrow> \<not> space_comma p CHR '',''"
      by (simp add: two_spaces_def space_comma_def split: option.splits)
    ultimately show ?thesis unfolding 2(1) space_comma_Some[OF 2(2)] by simp
  next
    case (3 x xs)
    from less.prems(1) have "no_pair two_spaces (Some x) xs" by (simp add: 3)
    moreover from 3(2) have "no_pair space_comma (Some x) (take 1 xs)"
      by (cases xs) (auto simp: space_comma_def)
    ultimately have "no_pair space_comma (Some x) (re_sub_from pat_space_comma '','' (Some x) xs)"
      by (intro less) (simp_all add: 3)
    with less.prems(2) show ?thesis unfolding 3(1) space_comma_None[OF 3(2)] by simp
  qed
qed


subsubsection \<open>Normalized texts\<close>

lemma remove_specific_locations_steps:
  "\<not> (t = [] \<or> strip t = []) \<Longrightarrow>
   remove_specific_locations t =
     strip (re_sub pat_space_comma '',''
              (re_sub pat_comma_comma '','' (re_sub pat_spaces '' '' (five_subs t))))"
  by (simp add: remove_specific_locations_def five_subs_def Let_def)

lemma result_normalized:
  assumes "\<not> (t = [] \<or> strip t = [])"
  shows "normalized (remove_specific_locations t)"
proof -
  let ?y5 = "five_subs t"
  let ?y6 = "re_sub pat_spaces '' '' ?y5"
  let ?y7 = "re_sub pat_comma_comma '','' ?y6"
  let ?y8 = "re_sub pat_space_comma '','' ?y7"
  have u: "remove_specific_locations t = strip ?y8"
    using assms by (rule remove_specific_locations_steps)
  have "word_runs (strip ?y8) = word_runs ?y5"
    by (simp only: strip_keeps_runs space_comma_keeps_runs comma_comma_keeps_runs spaces_keep_runs)
  then have runs: "\<forall>w \<in> set (word_runs (strip ?y8)). \<not> bad_run w"
    using five_subs_good[of t] by simp
  have b6: "only_blanks ?y6" and s6: "no_pair two_spaces None ?y6"
    using spaces_out[of None ?y5] by (simp_all add: re_sub_def)
  have "set ?y8 \<subseteq> set ?y6"
    using space_comma_set[of None ?y7] comma_comma_set[of None ?y6] by (simp add: re_sub_def)
  with b6 have b8: "only_blanks ?y8" unfolding only_blanks_def by blast
  have s7: "no_pair two_spaces None ?y7"
    using comma_comma_keeps[OF s6] by (simp add: re_sub_def)
  have s8: "no_pair two_spaces None ?y8"
    using space_comma_keeps_spaces[OF s7] by (simp add: re_sub_def)
  have "no_pair space_comma None (take 1 ?y7)" by (cases ?y7) simp_all
  with s7 have c8: "no_pair space_comma None ?y8"
    unfolding re_sub_def by (rule space_comma_out)
  show ?thesis
    unfolding normalized_def u
    using runs only_blanks_strip[OF b8] no_pair_strip[OF s8] no_pair_strip[OF c8] strip_strip[of ?y8]
    by blast
qed


subsubsection \<open>Two adjacent commas\<close>

lemma comma_comma_complete:
  "match_at pat_comma_comma prev (CHR '','' # CHR '','' # r) = Some 2"
proof -
  have "takeWhile (in_class CSpace) (CHR '','' # r) = []"
    by (simp add: comma_not_space)
  then have "match_at [Many CSpace 0, One (CChar CHR '','')] (Some CHR '','') (CHR '','' # r) = Some (0 + 1)"
    by (intro match_many_max) (simp_all add: prev_at_def)
  then show ?thesis by (simp add: pat_comma_comma_def del: match_at.simps(5))
qed

lemma comma_comma_shorter:
  "length (re_sub_from pat_comma_comma '','' prev s) \<le> length s \<and>
   (contains s '',,'' \<longrightarrow> length (re_sub_from pat_comma_comma '','' prev s) < length s)"
proof (induction "length s" arbitrary: s prev rule: less_induct)
  case less
  show ?case
  proof (cases "match_at pat_comma_comma prev s")
    case None
    show ?thesis
    proof (cases s)
      case Nil
      then show ?thesis by (simp add: sub_Nil_any)
    next
      case (Cons x xs)
      from None have e: "re_sub_from pat_comma_comma '','' prev (x # xs) =
          x # re_sub_from pat_comma_comma '','' (Some x) xs"
        unfolding Cons by (rule sub_None)
      have "\<not> prefix '',,'' (x # xs)"
      proof
        assume "prefix '',,'' (x # xs)"
        then obtain r where "x # xs = CHR '','' # CHR '','' # r" by (auto simp: prefix_def)
        with None Cons comma_comma_complete[of prev r] show False by simp
      qed
      then have c: "contains s '',,'' = contains xs '',,''" unfolding Cons by (simp only: contains.simps) simp
      have "length xs < length s" by (simp add: Cons)
      from less[OF this, of "Some x"] show ?thesis unfolding c unfolding Cons e by simp
    qed
  next
    case (Some n)
    then obtain w r where s: "s = CHR '','' # w @ CHR '','' # r"
      and e: "re_sub_from pat_comma_comma '','' prev s =
              CHR '','' # re_sub_from pat_comma_comma '','' (Some CHR '','') r"
      by (rule comma_comma_step)
    have "length r < length s" by (simp add: s)
    from less[OF this, of "Some CHR '',''"]
    have "length (re_sub_from pat_comma_comma '','' (Some CHR '','') r) \<le> length r" by blast
    then show ?thesis unfolding e by (simp add: s)
  qed
qed

lemma space_comma_length: "length (re_sub_from pat_space_comma '','' prev s) \<le> length s"
proof (induction "length s" arbitrary: s prev rule: less_induct)
  case less
  show ?case
  proof (cases s rule: space_comma_cases)
    case 1
    then show ?thesis by (simp add: sub_Nil_any)
  next
    case (2 x r)
    have "length (re_sub_from pat_space_comma '','' (Some CHR '','') r) \<le> length r"
      by (intro less) (simp add: 2)
    then show ?thesis unfolding 2(1) space_comma_Some[OF 2(2)] by simp
  next
    case (3 x xs)
    have "length (re_sub_from pat_space_comma '','' (Some x) xs) \<le> length xs"
      by (intro less) (simp add: 3)
    then show ?thesis unfolding 3(1) space_comma_None[OF 3(2)] by simp
  qed
qed

lemma strip_length: "length (strip s) \<le> length s"
proof -
  have "length (strip s) \<le> length (dropWhile is_space s)"
    unfolding strip_def by (metis length_dropWhile_le length_rev)
  also have "\<dots> \<le> length s" by (rule length_dropWhile_le)
  finally show ?thesis .
qed

lemma contains_Nil: "contains [] '',,'' = False"
  by simp

lemma not_idempotent_with_two_commas:
  assumes "contains (remove_specific_locations t) '',,''"
  shows "remove_specific_locations (remove_specific_locations t) \<noteq> remove_specific_locations t"
proof -
  let ?u = "remove_specific_locations t"
  have nb: "\<not> (t = [] \<or> strip t = [])"
  proof
    assume b: "t = [] \<or> strip t = []"
    then have "?u = t" by (simp add: remove_specific_locations_def)
    with assms have c: "contains t '',,''" by simp
    from b have "dropWhile is_space t = []"
    proof
      assume "t = []" then show ?thesis by simp
    next
      assume "strip t = []"
      then have "dropWhile is_space (rev (dropWhile is_space t)) = []" by (simp add: strip_def)
      then have "\<forall>c \<in> set (dropWhile is_space t). is_space c" by (simp add: dropWhile_eq_Nil_conv)
      then show ?thesis by (metis hd_dropWhile hd_in_set)
    qed
    then have all: "\<forall>c \<in> set t. is_space c" by (simp add: dropWhile_eq_Nil_conv)
    have "\<And>s. contains s '',,'' \<Longrightarrow> CHR '','' \<in> set s"
    proof -
      fix s show "contains s '',,'' \<Longrightarrow> CHR '','' \<in> set s"
        by (induction s) (auto simp: prefix_def)
    qed
    from this[OF c] all comma_not_space show False by blast
  qed
  then have n: "normalized ?u" by (rule result_normalized)
  then have runs: "\<forall>w \<in> set (word_runs ?u). \<not> bad_run w" and b: "only_blanks ?u"
    and s: "no_pair two_spaces None ?u" and st: "strip ?u = ?u"
    unfolding normalized_def by blast+
  from assms have "?u \<noteq> []" by (metis contains_Nil)
  with st have nbu: "\<not> (?u = [] \<or> strip ?u = [])" by simp
  from runs have 5: "five_subs ?u = ?u" by (rule five_subs_identity)
  from b s have 6: "re_sub pat_spaces '' '' ?u = ?u" unfolding re_sub_def by (rule spaces_identity)
  have "length (remove_specific_locations ?u) \<le>
        length (re_sub pat_space_comma '','' (re_sub pat_comma_comma '','' ?u))"
    by (simp only: remove_specific_locations_steps[OF nbu] 5 6 strip_length)
  also have "\<dots> \<le> length (re_sub pat_comma_comma '','' ?u)"
    unfolding re_sub_def by (rule space_comma_length)
  also have "\<dots> < length ?u"
    unfolding re_sub_def using comma_comma_shorter[of None ?u] assms by blast
  finally show ?thesis by (metis less_irrefl)
qed

text \<open>
  For example, of three commas the comma cleanup leaves two, and of these two a second
  application leaves one.
\<close>

lemma three_commas_twice:
  "remove_specific_locations '',,,'' = '',,'' \<and> remove_specific_locations '',,'' = '',''"
  by code_simp



end
